theory Spec2Isabelle
  imports Complex_Main "HOL-Library.Word"
begin

section \<open>JavaScript values\<close>

text \<open>
  A JavaScript string is a sequence of UTF-16 code units; \<open>s.length\<close> counts code units
  and a regular expression without the \<open>u\<close> flag matches code units. A Node Buffer is a
  sequence of bytes.
\<close>

type_synonym jschar = "16 word"
type_synonym jsstring = "jschar list"
type_synonym byte = "8 word"

definition ascii :: "string \<Rightarrow> jsstring" where
  "ascii s = map (\<lambda>c. of_nat (of_char c)) s"

datatype error = TypeError | RangeError | SpawnError | ResizeError

section \<open>web-server: safeEqual\<close>

text \<open>
  \<open>Buffer.write(string)\<close> encodes the string as UTF-8 and writes as many whole characters as
  fit into the buffer; a character that does not fit is not written, nor is anything after
  it. A surrogate pair is one character of four bytes; a lone surrogate is written as
  U+FFFD.
\<close>

definition is_high_surrogate :: "jschar \<Rightarrow> bool" where
  "is_high_surrogate c = (0xD800 \<le> unat c \<and> unat c < 0xDC00)"

definition is_low_surrogate :: "jschar \<Rightarrow> bool" where
  "is_low_surrogate c = (0xDC00 \<le> unat c \<and> unat c < 0xE000)"

definition utf8_one :: "jschar \<Rightarrow> byte list" where
  "utf8_one c =
     (let n = unat c in
      if n < 0x80 then [of_nat n]
      else if n < 0x800 then [of_nat (0xC0 + n div 64), of_nat (0x80 + n mod 64)]
      else if 0xD800 \<le> n \<and> n < 0xE000 then [0xEF, 0xBF, 0xBD]
      else [of_nat (0xE0 + n div 4096), of_nat (0x80 + (n div 64) mod 64),
            of_nat (0x80 + n mod 64)])"

definition utf8_pair :: "jschar \<Rightarrow> jschar \<Rightarrow> byte list" where
  "utf8_pair hi lo =
     (let cp = 0x10000 + (unat hi - 0xD800) * 1024 + (unat lo - 0xDC00) in
      [of_nat (0xF0 + cp div 262144), of_nat (0x80 + (cp div 4096) mod 64),
       of_nat (0x80 + (cp div 64) mod 64), of_nat (0x80 + cp mod 64)])"

fun utf8_chars :: "jsstring \<Rightarrow> byte list list" where
  "utf8_chars [] = []"
| "utf8_chars [c] = [utf8_one c]"
| "utf8_chars (c # d # r) =
     (if is_high_surrogate c \<and> is_low_surrogate d then utf8_pair c d # utf8_chars r
      else utf8_one c # utf8_chars (d # r))"

fun fit :: "nat \<Rightarrow> byte list list \<Rightarrow> byte list" where
  "fit n [] = []"
| "fit n (e # es) = (if length e \<le> n then e @ fit (n - length e) es else [])"

definition buf_alloc :: "nat \<Rightarrow> byte list" where
  "buf_alloc n = replicate n 0"

definition buf_write :: "byte list \<Rightarrow> jsstring \<Rightarrow> byte list" where
  "buf_write buf s = (let w = fit (length buf) (utf8_chars s) in w @ drop (length w) buf)"

text \<open>\<open>crypto.timingSafeEqual\<close> throws a RangeError on buffers of different length.\<close>

definition timingSafeEqual :: "byte list \<Rightarrow> byte list \<Rightarrow> error + bool" where
  "timingSafeEqual x y = (if length x \<noteq> length y then Inl RangeError else Inr (x = y))"

definition safeEqual :: "jsstring \<Rightarrow> jsstring \<Rightarrow> error + bool" where
  "safeEqual a b =
     (let maxLen = max (max (length a) (length b)) 1;
          aBuf = buf_write (buf_alloc maxLen) a;
          bBuf = buf_write (buf_alloc maxLen) b
      in case timingSafeEqual aBuf bBuf of
           Inl e \<Rightarrow> Inl e
         | Inr match \<Rightarrow> Inr (match \<and> length a = length b))"

section \<open>web-server: the output buffer\<close>

record BufferEntry =
  seq :: nat
  data :: jsstring

record clientInfo =
  cols :: int
  rows :: int
  synced :: bool

text \<open>
  The module variables of web-server. \<open>connectedClients\<close> is a JavaScript Map keyed by the
  socket object: an association list in insertion order, the key being the socket's
  identity. Sequence numbers are JavaScript numbers counting up from 1; they are modelled
  as unbounded naturals.
\<close>

record web_server =
  outputBuffer :: "BufferEntry list"
  nextSeq :: nat
  connectedClients :: "(nat \<times> clientInfo) list"
  clientIdCounter :: nat
  serverToken :: jsstring
  tempDir :: "jsstring option"
  listening :: bool

definition MAX_BUFFER_SIZE :: nat where "MAX_BUFFER_SIZE = 5000"
definition BUFFER_TRIM_SIZE :: nat where "BUFFER_TRIM_SIZE = 3000"

definition web_init :: web_server where
  "web_init = \<lparr>outputBuffer = [], nextSeq = 1, connectedClients = [], clientIdCounter = 0,
                serverToken = [], tempDir = None, listening = False\<rparr>"

text \<open>
  The clear-screen sequences \<open>ESC [ 2 J\<close>, \<open>ESC [ 3 J\<close> and \<open>ESC c\<close>.
  \<open>clearAt s\<close> is the regular expression \<open>/\x1b\[[23]J|\x1bc/\<close> tried at the start of
  \<open>s\<close>: the length of the match, the first alternative first.
\<close>

definition CLEAR_J2 :: jsstring where "CLEAR_J2 = [0x1B, 0x5B, 0x32, 0x4A]"
definition CLEAR_J3 :: jsstring where "CLEAR_J3 = [0x1B, 0x5B, 0x33, 0x4A]"
definition CLEAR_C :: jsstring where "CLEAR_C = [0x1B, 0x63]"

definition clearAt :: "jsstring \<Rightarrow> nat option" where
  "clearAt s =
     (if take 4 s = CLEAR_J2 \<or> take 4 s = CLEAR_J3 then Some 4
      else if take 2 s = CLEAR_C then Some 2
      else None)"

text \<open>\<open>CLEAR_SCREEN_RE.test(data)\<close>: the expression matches at some position.\<close>

fun CLEAR_SCREEN_RE_test :: "jsstring \<Rightarrow> bool" where
  "CLEAR_SCREEN_RE_test [] = False"
| "CLEAR_SCREEN_RE_test (x # xs) = (clearAt (x # xs) \<noteq> None \<or> CLEAR_SCREEN_RE_test xs)"

text \<open>
  \<open>data.matchAll(/.../g)\<close>: the matches from left to right, each as (index, length); after
  a match the scan goes on behind it.
\<close>

function matchAll :: "nat \<Rightarrow> jsstring \<Rightarrow> (nat \<times> nat) list" where
  "matchAll i [] = []"
| "matchAll i (x # xs) =
     (case clearAt (x # xs) of
        Some n \<Rightarrow> (i, n) # matchAll (i + n) (drop n (x # xs))
      | None \<Rightarrow> matchAll (i + 1) xs)"
  by pat_completeness auto
termination
  by (relation "measure (\<lambda>(i, s). length s)") (auto simp: clearAt_def split: if_splits)

text \<open>
  Lines 384 to 395 of the PTY-data handler: the chunk gets the next sequence number and
  is pushed; a chunk with a clear-screen sequence replaces the whole buffer by what
  follows the last match (by nothing when that is the empty string); otherwise a buffer
  beyond \<open>MAX_BUFFER_SIZE\<close> keeps its last \<open>BUFFER_TRIM_SIZE\<close> entries. Reading
  \<open>last.index\<close> of an empty match list would throw a TypeError.
\<close>

definition appendChunk :: "jsstring \<Rightarrow> web_server \<Rightarrow> error + web_server" where
  "appendChunk d st =
     (let sq = nextSeq st;
          st1 = st\<lparr>nextSeq := sq + 1, outputBuffer := outputBuffer st @ [\<lparr>seq = sq, data = d\<rparr>]\<rparr>
      in if CLEAR_SCREEN_RE_test d then
           (case matchAll 0 d of
              [] \<Rightarrow> Inl TypeError
            | m # ms \<Rightarrow>
                (let lst = last (m # ms);
                     after = drop (fst lst + snd lst) d
                 in Inr (st1\<lparr>outputBuffer := (if after \<noteq> [] then [\<lparr>seq = sq, data = after\<rparr>] else [])\<rparr>)))
         else if length (outputBuffer st1) > MAX_BUFFER_SIZE then
           Inr (st1\<lparr>outputBuffer :=
                  drop (length (outputBuffer st1) - BUFFER_TRIM_SIZE) (outputBuffer st1)\<rparr>)
         else Inr st1)"

datatype serverMsg =
    Output nat jsstring
  | History "jsstring list" nat
  | HistoryDelta "jsstring list" nat
  | Exit int

text \<open>
  The whole handler: after the buffer update, \<open>output{seq, data}\<close> with the unmodified
  chunk goes to every connected client whose socket (one of \<open>opn\<close>) is open.
\<close>

definition onPTYData ::
  "nat list \<Rightarrow> jsstring \<Rightarrow> web_server \<Rightarrow> error + (web_server \<times> (nat \<times> serverMsg) list)" where
  "onPTYData opn d st =
     (case appendChunk d st of
        Inl e \<Rightarrow> Inl e
      | Inr st' \<Rightarrow>
          Inr (st', map (\<lambda>(ws, info). (ws, Output (nextSeq st) d))
                      (filter (\<lambda>(ws, info). ws \<in> set opn) (connectedClients st'))))"

text \<open>A run of the handler over the chunks the PTY emits, one call per chunk.\<close>

fun feed :: "(nat list \<times> jsstring) list \<Rightarrow> web_server \<Rightarrow> error + web_server" where
  "feed [] st = Inr st"
| "feed ((opn, d) # ds) st =
     (case onPTYData opn d st of Inl e \<Rightarrow> Inl e | Inr (st', sent) \<Rightarrow> feed ds st')"

text \<open>Strictly increasing by exactly one from each record to the next.\<close>

fun gapless :: "nat list \<Rightarrow> bool" where
  "gapless [] = True"
| "gapless [x] = True"
| "gapless (x # y # r) = (y = x + 1 \<and> gapless (y # r))"

definition CLEAR_SEQS :: "jsstring list" where
  "CLEAR_SEQS = [CLEAR_J2, CLEAR_J3, CLEAR_C]"

text \<open>The invariant of the buffer: the retained numbers are the last ones handed out.\<close>

definition log_inv :: "web_server \<Rightarrow> bool" where
  "log_inv st =
     (map seq (outputBuffer st) = [nextSeq st - length (outputBuffer st) ..< nextSeq st]
      \<and> length (outputBuffer st) < nextSeq st)"

section \<open>pty: the PTY supervisor\<close>

text \<open>
  \<open>procs\<close> is every subprocess \<open>pty.spawn\<close> has created, in creation order, each with the
  calls on its handle that node-pty has carried out; \<open>ptyProcess\<close> is the module variable,
  an index into \<open>procs\<close>. The callback arrays hold the identities of the registered
  functions.
\<close>

datatype ptyCall = Write jsstring | Resize int int | Kill

record ptyProc =
  command :: jsstring
  args :: "jsstring list"
  cwd :: jsstring
  spawnCols :: int
  spawnRows :: int
  calls :: "ptyCall list"

datatype callback = RelayData | RelayExit | RelayResize | SessionExit | SessionCrash

record pty_state =
  procs :: "ptyProc list"
  ptyProcess :: "nat option"
  dataCallbacks :: "callback list"
  exitCallbacks :: "callback list"
  resizeCallbacks :: "callback list"
  stdinListener :: bool
  resizeListener :: bool
  rawMode :: bool
  localCols :: int
  localRows :: int

definition pty_init :: pty_state where
  "pty_init = \<lparr>procs = [], ptyProcess = None, dataCallbacks = [], exitCallbacks = [],
                resizeCallbacks = [], stdinListener = False, resizeListener = False,
                rawMode = False, localCols = 80, localRows = 24\<rparr>"

record PTYOptions =
  o_cols :: "int option"
  o_rows :: "int option"
  o_command :: "jsstring option"
  o_args :: "jsstring list option"
  o_cwd :: "jsstring option"

text \<open>What \<open>spawnPTY\<close> reads from the process: \<open>process.env.SHELL\<close>, the size of stdout, the
  working directory, whether stdin is a terminal.\<close>

record procEnv =
  env_SHELL :: "jsstring option"
  stdout_columns :: "int option"
  stdout_rows :: "int option"
  process_cwd :: jsstring
  stdin_isTTY :: bool

text \<open>JavaScript's \<open>a || b\<close> on an optional number and on an optional string: \<open>undefined\<close>,
  \<open>0\<close> and the empty string are falsy.\<close>

definition or_num :: "int option \<Rightarrow> int \<Rightarrow> int" where
  "or_num a d = (case a of Some v \<Rightarrow> if v \<noteq> 0 then v else d | None \<Rightarrow> d)"

definition or_str :: "jsstring option \<Rightarrow> jsstring \<Rightarrow> jsstring" where
  "or_str a d = (case a of Some v \<Rightarrow> if v \<noteq> [] then v else d | None \<Rightarrow> d)"

definition getLocalSize :: "pty_state \<Rightarrow> int \<times> int" where
  "getLocalSize st = (localCols st, localRows st)"

definition addCall :: "ptyCall \<Rightarrow> ptyProc \<Rightarrow> ptyProc" where
  "addCall c p = p\<lparr>calls := calls p @ [c]\<rparr>"

text \<open>
  \<open>spawnPTY\<close>: the local size is set, then \<open>pty.spawn\<close> creates the subprocess and the
  handle is assigned, with no look at the handle already there. \<open>spawnOk\<close> is whether
  \<open>pty.spawn\<close> returns; when it throws, the local size has been set already and nothing
  else has. The result is the handle returned, with the new state.
\<close>

definition spawnPTY ::
  "PTYOptions \<Rightarrow> procEnv \<Rightarrow> bool \<Rightarrow> pty_state \<Rightarrow> (error + nat) \<times> pty_state" where
  "spawnPTY options env spawnOk st =
     (let shell = or_str (env_SHELL env) (ascii ''/bin/sh'');
          cmd = or_str (o_command options) shell;
          as = (case o_args options of Some a \<Rightarrow> a | None \<Rightarrow> []);
          lc = or_num (o_cols options) (or_num (stdout_columns env) 80);
          lr = or_num (o_rows options) (or_num (stdout_rows env) 24);
          dir = or_str (o_cwd options) (process_cwd env);
          st1 = st\<lparr>localCols := lc, localRows := lr\<rparr>
      in if \<not> spawnOk then (Inl SpawnError, st1)
         else
           (let h = length (procs st1);
                p = \<lparr>command = cmd, args = as, cwd = dir, spawnCols = lc, spawnRows = lr,
                     calls = []\<rparr>
            in (Inr h,
                st1\<lparr>procs := procs st1 @ [p], ptyProcess := Some h,
                    rawMode := (if stdin_isTTY env then True else rawMode st1),
                    stdinListener := True, resizeListener := True\<rparr>)))"

definition writeToPTY :: "jsstring \<Rightarrow> pty_state \<Rightarrow> pty_state" where
  "writeToPTY d st =
     (case ptyProcess st of
        Some h \<Rightarrow> st\<lparr>procs := (procs st)[h := addCall (Write d) (procs st ! h)]\<rparr>
      | None \<Rightarrow> st)"

text \<open>
  \<open>resizePTY\<close> hands the request to \<open>ptyProcess.resize\<close> when a PTY is live. That method of
  node-pty throws on a size with a dimension that is not positive, before anything
  reaches the subprocess and with the handle's size as it was; \<open>resizePTY\<close> does not catch
  the exception. The result is the exception thrown, if any, with the new state.
\<close>

definition resizePTY :: "int \<Rightarrow> int \<Rightarrow> pty_state \<Rightarrow> error option \<times> pty_state" where
  "resizePTY c r st =
     (case ptyProcess st of
        Some h \<Rightarrow>
          if c \<le> 0 \<or> r \<le> 0 then (Some ResizeError, st)
          else (None, st\<lparr>procs := (procs st)[h := addCall (Resize c r) (procs st ! h)]\<rparr>)
      | None \<Rightarrow> (None, st))"

definition killPTY :: "procEnv \<Rightarrow> pty_state \<Rightarrow> pty_state" where
  "killPTY env st =
     (let st1 = (case ptyProcess st of
                   Some h \<Rightarrow> st\<lparr>procs := (procs st)[h := addCall Kill (procs st ! h)],
                                ptyProcess := None\<rparr>
                 | None \<Rightarrow> st)
      in st1\<lparr>stdinListener := False, resizeListener := False,
             rawMode := (if stdin_isTTY env then False else rawMode st1)\<rparr>)"

definition onPTYData_register :: "callback \<Rightarrow> pty_state \<Rightarrow> pty_state" where
  "onPTYData_register cb st = st\<lparr>dataCallbacks := dataCallbacks st @ [cb]\<rparr>"

definition onPTYExit :: "callback \<Rightarrow> pty_state \<Rightarrow> pty_state" where
  "onPTYExit cb st = st\<lparr>exitCallbacks := exitCallbacks st @ [cb]\<rparr>"

definition onLocalTerminalResize :: "callback \<Rightarrow> pty_state \<Rightarrow> pty_state" where
  "onLocalTerminalResize cb st = st\<lparr>resizeCallbacks := resizeCallbacks st @ [cb]\<rparr>"

definition clearCallbacks :: "pty_state \<Rightarrow> pty_state" where
  "clearCallbacks st = st\<lparr>dataCallbacks := [], exitCallbacks := [], resizeCallbacks := []\<rparr>"

text \<open>The exit handler of a subprocess: the exit callbacks are called with the code (the
  list returned), and the module's handle is cleared.\<close>

definition ptyOnExit :: "int \<Rightarrow> pty_state \<Rightarrow> (callback \<times> int) list \<times> pty_state" where
  "ptyOnExit code st = (map (\<lambda>cb. (cb, code)) (exitCallbacks st), st\<lparr>ptyProcess := None\<rparr>)"

text \<open>The resize listener on stdout: a size with a zero or missing dimension is ignored.\<close>

definition localResize :: "procEnv \<Rightarrow> pty_state \<Rightarrow> callback list \<times> pty_state" where
  "localResize env st =
     (case (stdout_columns env, stdout_rows env) of
        (Some c, Some r) \<Rightarrow>
          if c \<noteq> 0 \<and> r \<noteq> 0 then (resizeCallbacks st, st\<lparr>localCols := c, localRows := r\<rparr>)
          else ([], st)
      | _ \<Rightarrow> ([], st))"

text \<open>The size of the PTY: that of the last resize carried out, or the one it was
  spawned with.\<close>

fun sizeAfter :: "int \<times> int \<Rightarrow> ptyCall list \<Rightarrow> int \<times> int" where
  "sizeAfter sz [] = sz"
| "sizeAfter sz (Resize c r # cs) = sizeAfter (c, r) cs"
| "sizeAfter sz (_ # cs) = sizeAfter sz cs"

definition ptySize :: "ptyProc \<Rightarrow> int \<times> int" where
  "ptySize p = sizeAfter (spawnCols p, spawnRows p) (calls p)"

text \<open>
  The specification's words for \<open>resize\<close>: a positive change is a request with both
  dimensions positive that differs from the size the live PTY has.
\<close>

definition positive_change :: "pty_state \<Rightarrow> int \<Rightarrow> int \<Rightarrow> bool" where
  "positive_change st c r =
     (case ptyProcess st of
        None \<Rightarrow> False
      | Some h \<Rightarrow> 0 < c \<and> 0 < r \<and> ptySize (procs st ! h) \<noteq> (c, r))"

section \<open>web-server: size arbitration\<close>

text \<open>\<open>connectedClients.forEach\<close> visits the entries in insertion order.\<close>

fun minOver :: "int \<times> int \<Rightarrow> clientInfo list \<Rightarrow> int \<times> int" where
  "minOver (minCols, minRows) [] = (minCols, minRows)"
| "minOver (minCols, minRows) (clientInfo # rest) =
     (if cols clientInfo > 0 \<and> rows clientInfo > 0
      then minOver (min minCols (cols clientInfo), min minRows (rows clientInfo)) rest
      else minOver (minCols, minRows) rest)"

definition calculateMinSize :: "web_server \<Rightarrow> pty_state \<Rightarrow> int \<times> int" where
  "calculateMinSize w p = minOver (getLocalSize p) (map snd (connectedClients w))"

text \<open>An exception of \<open>resizePTY\<close> passes through \<open>applyMinSize\<close>.\<close>

definition applyMinSize :: "web_server \<Rightarrow> pty_state \<Rightarrow> error option \<times> pty_state" where
  "applyMinSize w p =
     (if length (connectedClients w) = 0 then
        (case getLocalSize p of (c, r) \<Rightarrow> resizePTY c r p)
      else
        (case calculateMinSize w p of
           (c, r) \<Rightarrow> if c > 0 \<and> r > 0 then resizePTY c r p else (None, p)))"

text \<open>The sizes that take part: those of the clients with both dimensions positive.\<close>

definition positiveSizes :: "web_server \<Rightarrow> clientInfo list" where
  "positiveSizes w = filter (\<lambda>ci. cols ci > 0 \<and> rows ci > 0) (map snd (connectedClients w))"

section \<open>web-server: the message handler\<close>

text \<open>
  A JavaScript number as the handler can receive it from \<open>JSON.parse\<close> or \<open>Number(...)\<close>:
  a finite value, an infinity or NaN. Comparisons with NaN are false.
\<close>

datatype jsnumber = Num rat | PosInfinity | NegInfinity | NaN

fun js_lt :: "jsnumber \<Rightarrow> jsnumber \<Rightarrow> bool" where
  "js_lt (Num a) (Num b) = (a < b)"
| "js_lt (Num a) PosInfinity = True"
| "js_lt NegInfinity (Num b) = True"
| "js_lt NegInfinity PosInfinity = True"
| "js_lt _ _ = False"

fun js_le :: "jsnumber \<Rightarrow> jsnumber \<Rightarrow> bool" where
  "js_le NaN _ = False"
| "js_le _ NaN = False"
| "js_le a b = (a = b \<or> js_lt a b)"

definition js_gt :: "jsnumber \<Rightarrow> jsnumber \<Rightarrow> bool" where
  "js_gt a b = js_lt b a"

definition js_ge :: "jsnumber \<Rightarrow> jsnumber \<Rightarrow> bool" where
  "js_ge a b = js_le b a"

definition num :: "nat \<Rightarrow> jsnumber" where
  "num n = Num (of_nat n)"

definition isInteger :: "jsnumber \<Rightarrow> bool" where
  "isInteger n = (case n of Num q \<Rightarrow> of_int \<lfloor>q\<rfloor> = q | _ \<Rightarrow> False)"

definition intOf :: "jsnumber \<Rightarrow> int" where
  "intOf n = (case n of Num q \<Rightarrow> \<lfloor>q\<rfloor> | _ \<Rightarrow> 0)"

text \<open>
  A parsed message as the handler reads it: its \<open>type\<close>; \<open>lastSeq\<close> when that field is a
  number; \<open>data\<close> when that field is a string; \<open>Number(msg.cols)\<close> and \<open>Number(msg.rows)\<close>.
  The handler's argument is \<open>None\<close> when \<open>JSON.parse\<close> throws or gives
  \<open>null\<close>, on which reading \<open>msg.type\<close> throws: both end in the handler's \<open>catch\<close>.
\<close>

datatype msgType = Sync | Input | ResizeMsg | ImageUpload | OtherType

record wsMessage =
  mtype :: msgType
  lastSeq :: "jsnumber option"
  mdata :: "jsstring option"
  mcols :: jsnumber
  mrows :: jsnumber

text \<open>The variables of one connection's closure: the clientInfo object (also the value
  stored in \<open>connectedClients\<close>) and the rate-limiting counters.\<close>

record conn =
  info :: clientInfo
  msgCount :: nat
  msgWindowStart :: int

definition MAX_CONNECTIONS :: nat where "MAX_CONNECTIONS = 10"
definition MSG_RATE_WINDOW_MS :: int where "MSG_RATE_WINDOW_MS = 1000"
definition MSG_RATE_LIMIT :: nat where "MSG_RATE_LIMIT = 100"

fun map_set :: "nat \<Rightarrow> clientInfo \<Rightarrow> (nat \<times> clientInfo) list \<Rightarrow> (nat \<times> clientInfo) list" where
  "map_set k v [] = [(k, v)]"
| "map_set k v ((k', v') # r) = (if k = k' then (k, v) # r else (k', v') # map_set k v r)"

definition map_delete :: "nat \<Rightarrow> (nat \<times> clientInfo) list \<Rightarrow> (nat \<times> clientInfo) list" where
  "map_delete k m = filter (\<lambda>(k', v). k' \<noteq> k) m"

text \<open>A write to the clientInfo object is seen through the Map as well.\<close>

definition setInfo :: "nat \<Rightarrow> clientInfo \<Rightarrow> web_server \<Rightarrow> web_server" where
  "setInfo ws ci w =
     w\<lparr>connectedClients := map (\<lambda>(k, v). if k = ws then (k, ci) else (k, v)) (connectedClients w)\<rparr>"

text \<open>The connection handler: beyond the limit the socket is closed (\<open>None\<close>); otherwise
  the client is entered with 80 by 24 and its counters start at the current time.\<close>

definition onConnection :: "int \<Rightarrow> nat \<Rightarrow> web_server \<Rightarrow> conn option \<times> web_server" where
  "onConnection now ws w =
     (if length (connectedClients w) \<ge> MAX_CONNECTIONS then (None, w)
      else
        (let clientInfo = \<lparr>cols = 80, rows = 24, synced = False\<rparr>
         in (Some \<lparr>info = clientInfo, msgCount = 0, msgWindowStart = now\<rparr>,
             w\<lparr>clientIdCounter := clientIdCounter w + 1,
               connectedClients := map_set ws clientInfo (connectedClients w)\<rparr>)))"

text \<open>Lines 287 to 294: the rate check. The result says whether the message is dropped.\<close>

definition rateCheck :: "int \<Rightarrow> conn \<Rightarrow> bool \<times> conn" where
  "rateCheck now c =
     (let c1 = (if now - msgWindowStart c > MSG_RATE_WINDOW_MS
                then c\<lparr>msgCount := 0, msgWindowStart := now\<rparr> else c);
          c2 = c1\<lparr>msgCount := msgCount c1 + 1\<rparr>
      in (msgCount c2 > MSG_RATE_LIMIT, c2))"

text \<open>Lines 302 to 323: the reply to a sync message that is handled.\<close>

definition syncReply :: "BufferEntry list \<Rightarrow> jsnumber option \<Rightarrow> serverMsg option" where
  "syncReply buf ls =
     (let lastSeq = (case ls of Some n \<Rightarrow> n | None \<Rightarrow> Num 0) in
      if length buf = 0 then None
      else if js_gt lastSeq (Num 0) \<and> js_ge lastSeq (num (seq (hd buf))) then
        (let delta = filter (\<lambda>e. js_gt (num (seq e)) lastSeq) buf in
         if length delta > 0 then Some (HistoryDelta (map data delta) (seq (last delta)))
         else None)
      else Some (History (map data buf) (seq (last buf))))"

text \<open>
  The message handler. \<open>upload\<close> stands for the image-upload branch, which touches the
  file system: from the message and \<open>tempDir\<close> it gives the new \<open>tempDir\<close> and the replies.
  An exception of \<open>applyMinSize\<close> ends in the handler's \<open>catch\<close>, after the client's size has
  been set. The result is the new connection, relay and PTY state, and the messages sent
  to this client.
\<close>

definition onMessage ::
  "(wsMessage \<Rightarrow> jsstring option \<Rightarrow> jsstring option \<times> serverMsg list) \<Rightarrow> int \<Rightarrow> nat \<Rightarrow>
   wsMessage option \<Rightarrow> conn \<times> web_server \<times> pty_state \<Rightarrow>
   (conn \<times> web_server \<times> pty_state) \<times> serverMsg list" where
  "onMessage upload now ws data_in = (\<lambda>(c, w, p).
     (case rateCheck now c of
        (True, c') \<Rightarrow> ((c', w, p), [])
      | (False, c') \<Rightarrow>
          (case data_in of
             None \<Rightarrow> ((c', w, p), [])
           | Some msg \<Rightarrow>
               (case mtype msg of
                  Sync \<Rightarrow>
                    if \<not> synced (info c') then
                      (let ci = (info c')\<lparr>synced := True\<rparr>
                       in ((c'\<lparr>info := ci\<rparr>, setInfo ws ci w, p),
                           (case syncReply (outputBuffer w) (lastSeq msg) of
                              None \<Rightarrow> [] | Some r \<Rightarrow> [r])))
                    else ((c', w, p), [])
                | Input \<Rightarrow>
                    (case mdata msg of
                       Some d \<Rightarrow> ((c', w, writeToPTY d p), [])
                     | None \<Rightarrow> ((c', w, p), []))
                | ResizeMsg \<Rightarrow>
                    (let cs = mcols msg; rs = mrows msg in
                     if isInteger cs \<and> isInteger rs \<and> js_gt cs (Num 0) \<and> js_le cs (Num 500)
                        \<and> js_gt rs (Num 0) \<and> js_le rs (Num 200) then
                       (let ci = (info c')\<lparr>cols := intOf cs, rows := intOf rs\<rparr>;
                            w' = setInfo ws ci w
                        in ((c'\<lparr>info := ci\<rparr>, w', snd (applyMinSize w' p)), []))
                     else ((c', w, p), []))
                | ImageUpload \<Rightarrow>
                    (case mdata msg of
                       Some d \<Rightarrow>
                         (case upload msg (tempDir w) of
                            (dir, sent) \<Rightarrow> ((c', w\<lparr>tempDir := dir\<rparr>, p), sent))
                     | None \<Rightarrow> ((c', w, p), []))
                | OtherType \<Rightarrow> ((c', w, p), [])))))"

text \<open>The error handler removes the client; the close handler removes it and
  re-arbitrates the size, with nothing to catch an exception of that.\<close>

definition onWsError :: "nat \<Rightarrow> web_server \<Rightarrow> web_server" where
  "onWsError ws w = w\<lparr>connectedClients := map_delete ws (connectedClients w)\<rparr>"

definition onWsClose ::
  "nat \<Rightarrow> web_server \<times> pty_state \<Rightarrow> error option \<times> web_server \<times> pty_state" where
  "onWsClose ws = (\<lambda>(w, p).
     (let w' = w\<lparr>connectedClients := map_delete ws (connectedClients w)\<rparr>
      in (case applyMinSize w' p of (e, p') \<Rightarrow> (e, w', p'))))"

definition stopWebServer :: "web_server \<times> pty_state \<Rightarrow> web_server \<times> pty_state" where
  "stopWebServer = (\<lambda>(w, p).
     (w\<lparr>listening := False, connectedClients := [], outputBuffer := [], nextSeq := 1,
        clientIdCounter := 0, serverToken := [], tempDir := None\<rparr>,
      clearCallbacks p))"

text \<open>
  The specification's words for the sync reply: nothing on an empty log; the records
  after \<open>lastSeq\<close> as a delta (nothing when there are none) when \<open>lastSeq\<close> is at least the
  oldest retained number; the whole log otherwise.
\<close>

definition spec_syncReply :: "BufferEntry list \<Rightarrow> jsnumber option \<Rightarrow> serverMsg option" where
  "spec_syncReply buf ls =
     (let lastSeq = (case ls of Some n \<Rightarrow> n | None \<Rightarrow> Num 0) in
      if buf = [] then None
      else if js_ge lastSeq (num (seq (hd buf))) then
        (let after = filter (\<lambda>e. js_gt (num (seq e)) lastSeq) buf in
         if after = [] then None
         else Some (HistoryDelta (map data after) (seq (last after))))
      else Some (History (map data buf) (seq (last buf))))"


section \<open>web-server: the connections over time\<close>

text \<open>
  The relay with its sockets: the relay's variables, the PTY module, the closures of the
  sockets that were accepted and have not closed, and the identity the next socket
  gets (a socket object is new with every connection).
\<close>

record relay =
  r_web :: web_server
  r_pty :: pty_state
  r_conns :: "(nat \<times> conn) list"
  r_next :: nat

definition relay0 :: "pty_state \<Rightarrow> relay" where
  "relay0 p = \<lparr>r_web = web_init, r_pty = p, r_conns = [], r_next = 0\<rparr>"

text \<open>
  What the sockets bring: a new connection at a time; a message on a socket at a time;
  an error on a socket; the close of a socket. Messages, errors and closes reach the
  handlers of accepted sockets only.
\<close>

datatype relayEvent =
    Accept int
  | Message nat int "wsMessage option"
  | SockError nat
  | SockClose nat

definition setConn :: "nat \<Rightarrow> conn \<Rightarrow> (nat \<times> conn) list \<Rightarrow> (nat \<times> conn) list" where
  "setConn ws c cs = map (\<lambda>(k, v). if k = ws then (k, c) else (k, v)) cs"

text \<open>An exception that leaves the close handler is caught by nothing: the run ends
  with it.\<close>

fun relayStep ::
  "(wsMessage \<Rightarrow> jsstring option \<Rightarrow> jsstring option \<times> serverMsg list) \<Rightarrow> relayEvent \<Rightarrow> relay \<Rightarrow>
   error + relay" where
  "relayStep upload (Accept now) s =
     (case onConnection now (r_next s) (r_web s) of
        (None, w) \<Rightarrow> Inr (s\<lparr>r_next := r_next s + 1\<rparr>)
      | (Some c, w) \<Rightarrow>
          Inr (s\<lparr>r_web := w, r_conns := r_conns s @ [(r_next s, c)], r_next := r_next s + 1\<rparr>))"
| "relayStep upload (Message ws now m) s =
     (case map_of (r_conns s) ws of
        None \<Rightarrow> Inr s
      | Some c \<Rightarrow>
          (case onMessage upload now ws m (c, r_web s, r_pty s) of
             ((c', w, p), sent) \<Rightarrow>
               Inr (s\<lparr>r_web := w, r_pty := p, r_conns := setConn ws c' (r_conns s)\<rparr>)))"
| "relayStep upload (SockError ws) s =
     (case map_of (r_conns s) ws of
        None \<Rightarrow> Inr s
      | Some c \<Rightarrow> Inr (s\<lparr>r_web := onWsError ws (r_web s)\<rparr>))"
| "relayStep upload (SockClose ws) s =
     (case map_of (r_conns s) ws of
        None \<Rightarrow> Inr s
      | Some c \<Rightarrow>
          (case onWsClose ws (r_web s, r_pty s) of
             (Some e, w, p) \<Rightarrow> Inl e
           | (None, w, p) \<Rightarrow>
               Inr (s\<lparr>r_web := w, r_pty := p,
                      r_conns := filter (\<lambda>(k, v). k \<noteq> ws) (r_conns s)\<rparr>)))"

text \<open>
  The specification's words for what the clients have declared. A resize message is
  accepted when both dimensions are integers, the columns within (0, 500] and the rows
  within (0, 200]. The table of declarations holds, for every connected client in the
  order of connection, the size of its last accepted resize message, or nothing when it
  has sent none: a connection within the ceiling enters a client that has declared
  nothing; an accepted resize message that passes the rate check replaces the client's
  declaration; an error or a close removes the client.
\<close>

definition acceptedResize :: "wsMessage \<Rightarrow> bool" where
  "acceptedResize m =
     (mtype m = ResizeMsg \<and> isInteger (mcols m) \<and> isInteger (mrows m)
      \<and> 0 < intOf (mcols m) \<and> intOf (mcols m) \<le> 500
      \<and> 0 < intOf (mrows m) \<and> intOf (mrows m) \<le> 200)"

type_synonym declarations = "(nat \<times> (int \<times> int) option) list"

fun declare_step :: "relayEvent \<Rightarrow> relay \<Rightarrow> declarations \<Rightarrow> declarations" where
  "declare_step (Accept now) s d =
     (if length d < MAX_CONNECTIONS then d @ [(r_next s, None)] else d)"
| "declare_step (Message ws now None) s d = d"
| "declare_step (Message ws now (Some m)) s d =
     (case map_of (r_conns s) ws of
        None \<Rightarrow> d
      | Some c \<Rightarrow>
          if \<not> fst (rateCheck now c) \<and> acceptedResize m
          then map (\<lambda>(k, v). if k = ws then (k, Some (intOf (mcols m), intOf (mrows m))) else (k, v)) d
          else d)"
| "declare_step (SockError ws) s d = filter (\<lambda>(k, v). k \<noteq> ws) d"
| "declare_step (SockClose ws) s d = filter (\<lambda>(k, v). k \<noteq> ws) d"

text \<open>A run of the relay, with the table of declarations kept beside it.\<close>

fun relayRun ::
  "(wsMessage \<Rightarrow> jsstring option \<Rightarrow> jsstring option \<times> serverMsg list) \<Rightarrow> relayEvent list \<Rightarrow>
   relay \<times> declarations \<Rightarrow> error + relay \<times> declarations" where
  "relayRun upload [] sd = Inr sd"
| "relayRun upload (e # es) (s, d) =
     (case relayStep upload e s of
        Inl err \<Rightarrow> Inl err
      | Inr s' \<Rightarrow> relayRun upload es (s', declare_step e s d))"

text \<open>The size that counts for a client: the one it declared last, 80 by 24 when it has
  declared none.\<close>

definition sizeOf :: "(int \<times> int) option \<Rightarrow> int \<times> int" where
  "sizeOf x = (case x of None \<Rightarrow> (80, 24) | Some sz \<Rightarrow> sz)"

section \<open>cloudflare-tunnel: the tunnel supervisor\<close>

datatype rejectReason = TimeoutWaiting | StartFailed | ExitedWithCode "int option"

datatype startOutcome = Resolved jsstring | Rejected rejectReason

text \<open>
  The module variables, and with them the variables of the one call of
  \<open>startTunnelProcess\<close> the session makes: \<open>urlFound\<close>, the pending timeout and the promise
  of \<open>startTunnel\<close> (\<open>None\<close> while it is pending). \<open>signalled\<close> lists the subprocesses sent
  SIGTERM. An exit code is \<open>None\<close> when the subprocess was ended by a signal.
\<close>

record tunnel =
  tunnelProcess :: "nat option"
  tunnelUrl :: "jsstring option"
  crashCallbacks :: "callback list"
  intentionalStop :: bool
  urlFound :: bool
  timeoutArmed :: bool
  startPromise :: "startOutcome option"
  signalled :: "nat list"

definition tunnel_init :: tunnel where
  "tunnel_init = \<lparr>tunnelProcess = None, tunnelUrl = None, crashCallbacks = [],
                   intentionalStop = False, urlFound = False, timeoutArmed = False,
                   startPromise = None, signalled = []\<rparr>"

text \<open>A promise is settled by the first \<open>resolve\<close> or \<open>reject\<close>; later ones do nothing.\<close>

definition settle :: "startOutcome \<Rightarrow> tunnel \<Rightarrow> tunnel" where
  "settle r t = (case startPromise t of None \<Rightarrow> t\<lparr>startPromise := Some r\<rparr> | Some _ \<Rightarrow> t)"

definition startTunnelProcess :: "nat \<Rightarrow> tunnel \<Rightarrow> tunnel" where
  "startTunnelProcess pid t =
     t\<lparr>tunnelProcess := Some pid, urlFound := False, timeoutArmed := True,
       startPromise := None\<rparr>"

definition stopTunnel :: "tunnel \<Rightarrow> tunnel" where
  "stopTunnel t =
     (let t1 = (case tunnelProcess t of
                  Some pid \<Rightarrow> t\<lparr>intentionalStop := True, signalled := signalled t @ [pid],
                                tunnelProcess := None, tunnelUrl := None\<rparr>
                | None \<Rightarrow> t)
      in t1\<lparr>crashCallbacks := []\<rparr>)"

definition onTunnelCrash :: "callback \<Rightarrow> tunnel \<Rightarrow> tunnel" where
  "onTunnelCrash cb t = t\<lparr>crashCallbacks := crashCallbacks t @ [cb]\<rparr>"

text \<open>The 30 second timer, when it fires without having been cleared.\<close>

definition onTimeout :: "tunnel \<Rightarrow> tunnel" where
  "onTimeout t =
     (if timeoutArmed t then
        (let t1 = t\<lparr>timeoutArmed := False\<rparr>
         in if \<not> urlFound t1 then stopTunnel (settle (Rejected TimeoutWaiting) t1) else t1)
      else t)"

text \<open>A chunk on stderr or stdout; \<open>urlMatch\<close> is the result of matching the URL pattern
  on it.\<close>

definition onOutput :: "jsstring option \<Rightarrow> tunnel \<Rightarrow> tunnel" where
  "onOutput urlMatch t =
     (case urlMatch of
        Some url \<Rightarrow>
          if \<not> urlFound t
          then settle (Resolved url) (t\<lparr>urlFound := True, timeoutArmed := False, tunnelUrl := Some url\<rparr>)
          else t
      | None \<Rightarrow> t)"

definition onError :: "tunnel \<Rightarrow> tunnel" where
  "onError t = settle (Rejected StartFailed) (t\<lparr>timeoutArmed := False\<rparr>)"

text \<open>The close handler of the subprocess: the crash callbacks called, each with the
  code, and the new state.\<close>

definition onClose :: "int option \<Rightarrow> tunnel \<Rightarrow> (callback \<times> int option) list \<times> tunnel" where
  "onClose code t =
     (let (called, t1) =
            (if \<not> urlFound t then
               ([], settle (Rejected (ExitedWithCode code)) (t\<lparr>timeoutArmed := False\<rparr>))
             else if \<not> intentionalStop t then (map (\<lambda>cb. (cb, code)) (crashCallbacks t), t)
             else ([], t))
      in (called, t1\<lparr>tunnelProcess := None, tunnelUrl := None, intentionalStop := False\<rparr>))"

text \<open>What can happen between the start of the subprocess and its exit.\<close>

datatype tunnelEvent =
    OutputEv "jsstring option"
  | ErrorEv
  | TimeoutEv
  | StopTunnelEv
  | OnTunnelCrashEv callback

fun tunnelStep :: "tunnelEvent \<Rightarrow> tunnel \<Rightarrow> tunnel" where
  "tunnelStep (OutputEv m) t = onOutput m t"
| "tunnelStep ErrorEv t = onError t"
| "tunnelStep TimeoutEv t = onTimeout t"
| "tunnelStep StopTunnelEv t = stopTunnel t"
| "tunnelStep (OnTunnelCrashEv cb) t = onTunnelCrash cb t"

fun tunnelRun :: "tunnelEvent list \<Rightarrow> tunnel \<Rightarrow> tunnel" where
  "tunnelRun [] t = t"
| "tunnelRun (e # es) t = tunnelRun es (tunnelStep e t)"

fun isUrlOutput :: "tunnelEvent \<Rightarrow> bool" where
  "isUrlOutput (OutputEv (Some url)) = True"
| "isUrlOutput _ = False"

section \<open>session: shutdown\<close>

datatype teardownStep = KilledPTY | StoppedWebServer | StoppedTunnel | ProcessExit int

text \<open>
  The state \<open>cleanup\<close> works on: its guard, the three modules, the code given to
  \<open>process.exit\<close>, and the log of the calls the teardown body has made.
\<close>

record session =
  cleaningUp :: bool
  s_pty :: pty_state
  s_web :: web_server
  s_tunnel :: tunnel
  exitCode :: "int option"
  teardown :: "teardownStep list"

definition teardownBody :: "teardownStep list" where
  "teardownBody = [KilledPTY, StoppedWebServer, StoppedTunnel, ProcessExit 0]"

definition cleanup :: "procEnv \<Rightarrow> session \<Rightarrow> session" where
  "cleanup env s =
     (if cleaningUp s then s
      else
        (let s1 = s\<lparr>cleaningUp := True\<rparr>;
             p1 = killPTY env (s_pty s1);
             (w2, p2) = stopWebServer (s_web s1, p1);
             t3 = stopTunnel (s_tunnel s1)
         in s1\<lparr>s_pty := p2, s_web := w2, s_tunnel := t3, exitCode := Some 0,
               teardown := teardown s1 @ teardownBody\<rparr>))"

text \<open>
  The triggers of shutdown: the two signals, whose handler is \<open>cleanup\<close>, and the exit of
  the PTY, whose handler calls the registered exit callbacks (the session's one calls
  \<open>cleanup\<close>) and then clears the handle. A run lets triggers arrive in any order and
  number, also after \<open>process.exit\<close> has been called.
\<close>

datatype trigger = SIGINT | SIGTERM | PTYExited int

fun callExit :: "procEnv \<Rightarrow> callback list \<Rightarrow> session \<Rightarrow> session" where
  "callExit env [] s = s"
| "callExit env (cb # cbs) s =
     callExit env cbs (if cb = SessionExit then cleanup env s else s)"

fun fire :: "procEnv \<Rightarrow> trigger \<Rightarrow> session \<Rightarrow> session" where
  "fire env SIGINT s = cleanup env s"
| "fire env SIGTERM s = cleanup env s"
| "fire env (PTYExited code) s =
     (let s1 = callExit env (exitCallbacks (s_pty s)) s
      in s1\<lparr>s_pty := (s_pty s1)\<lparr>ptyProcess := None\<rparr>\<rparr>)"

fun fireAll :: "procEnv \<Rightarrow> trigger list \<Rightarrow> session \<Rightarrow> session" where
  "fireAll env [] s = s"
| "fireAll env (t # ts) s = fireAll env ts (fire env t s)"

section \<open>Auxiliary notions for the properties\<close>

text \<open>The tunnel module when the subprocess exits: started from the initial module
  state, after the events \<open>evs\<close>.\<close>

definition atExit :: "nat \<Rightarrow> tunnelEvent list \<Rightarrow> tunnel" where
  "atExit pid evs = tunnelRun evs (startTunnelProcess pid tunnel_init)"

text \<open>Two facts that hold from the start of the subprocess to its exit: once the handle
  is cleared the stop flag is set, and a resolved promise means the URL was found.\<close>

definition tunnel_ok :: "tunnel \<Rightarrow> bool" where
  "tunnel_ok t = ((tunnelProcess t = None \<longrightarrow> intentionalStop t)
                \<and> (\<forall>u. startPromise t = Some (Resolved u) \<longrightarrow> urlFound t))"

text \<open>The events that cannot call \<open>stopTunnel\<close>, and the callbacks a run registers.\<close>

fun quiet :: "tunnelEvent \<Rightarrow> bool" where
  "quiet StopTunnelEv = False"
| "quiet TimeoutEv = False"
| "quiet _ = True"

fun registered :: "tunnelEvent list \<Rightarrow> callback list" where
  "registered [] = []"
| "registered (OnTunnelCrashEv cb # es) = cb # registered es"
| "registered (_ # es) = registered es"

text \<open>The guard of \<open>cleanup\<close> and the log of the teardown body go together.\<close>

definition guard_inv :: "session \<Rightarrow> bool" where
  "guard_inv s = (if cleaningUp s then teardown s = teardownBody else teardown s = [])"

fun isSignal :: "trigger \<Rightarrow> bool" where
  "isSignal (PTYExited code) = False"
| "isSignal _ = True"

text \<open>
  What holds of the relay and the table of declarations along a run: the relay's client
  table has the same clients in the same order, each with the size that counts for it;
  the table entry of a socket is the clientInfo object of its closure; every socket in
  use is older than the next one; the sizes that count are positive.
\<close>

definition agrees :: "(nat \<times> clientInfo) list \<Rightarrow> declarations \<Rightarrow> bool" where
  "agrees tbl d =
     list_all2 (\<lambda>(k, ci) (k', x). k = k' \<and> (cols ci, rows ci) = sizeOf x) tbl d"

definition rel_inv :: "relay \<Rightarrow> declarations \<Rightarrow> bool" where
  "rel_inv s d =
     (agrees (connectedClients (r_web s)) d
      \<and> (\<forall>ws ci. (ws, ci) \<in> set (connectedClients (r_web s)) \<longrightarrow>
            (\<exists>c. map_of (r_conns s) ws = Some c \<and> info c = ci))
      \<and> (\<forall>k \<in> fst ` set (connectedClients (r_web s)). k < r_next s)
      \<and> (\<forall>k \<in> fst ` set (r_conns s). k < r_next s)
      \<and> (\<forall>(k, x) \<in> set d. 0 < fst (sizeOf x) \<and> 0 < snd (sizeOf x)))"

text \<open>What the relay leaves alone in the PTY module: the handle, the local size, the
  number of subprocesses.\<close>

definition pty_frame :: "pty_state \<Rightarrow> pty_state \<Rightarrow> bool" where
  "pty_frame p0 p =
     (ptyProcess p = ptyProcess p0 \<and> localCols p = localCols p0 \<and> localRows p = localRows p0
      \<and> length (procs p) = length (procs p0))"

text \<open>A message that changes a declaration: an accepted resize message that passes the
  rate check.\<close>

definition accepted :: "int \<Rightarrow> conn \<Rightarrow> wsMessage option \<Rightarrow> bool" where
  "accepted now c m =
     (case m of None \<Rightarrow> False | Some msg \<Rightarrow> \<not> fst (rateCheck now c) \<and> acceptedResize msg)"

section \<open>Concrete states used in the examples\<close>

definition env0 :: procEnv where
  "env0 = \<lparr>env_SHELL = Some (ascii ''/bin/zsh''), stdout_columns = Some 100,
            stdout_rows = Some 40, process_cwd = ascii ''/home'', stdin_isTTY = True\<rparr>"

definition opts0 :: PTYOptions where
  "opts0 = \<lparr>o_cols = None, o_rows = None, o_command = Some (ascii ''claude''),
             o_args = Some [], o_cwd = Some (ascii ''/home'')\<rparr>"

text \<open>The PTY module after one successful spawn on a terminal of 100 by 40.\<close>

definition live_pty :: pty_state where
  "live_pty = snd (spawnPTY opts0 env0 True pty_init)"

text \<open>A relay with two clients that have declared 80 by 24 and 120 by 50.\<close>

definition two_clients :: web_server where
  "two_clients = web_init\<lparr>connectedClients :=
     [(1, \<lparr>cols = 80, rows = 24, synced = True\<rparr>), (2, \<lparr>cols = 120, rows = 50, synced = True\<rparr>)]\<rparr>"

text \<open>A connection accepted at time 0.\<close>

definition conn0 :: conn where
  "conn0 = \<lparr>info = \<lparr>cols = 80, rows = 24, synced = False\<rparr>, msgCount = 0, msgWindowStart = 0\<rparr>"

text \<open>Four chunks, the third with a clear-screen sequence.\<close>

definition log34 :: "(nat list \<times> jsstring) list" where
  "log34 = [([], ascii ''a''), ([], ascii ''b''), ([], CLEAR_C @ ascii ''c''), ([], ascii ''d'')]"

definition url0 :: jsstring where
  "url0 = ascii ''https://a-b.trycloudflare.com''"

text \<open>The relay after the four chunks, and a sync message with a given \<open>lastSeq\<close>.\<close>

definition w34 :: web_server where
  "w34 = web_init\<lparr>outputBuffer := [\<lparr>seq = 3, data = ascii ''c''\<rparr>, \<lparr>seq = 4, data = ascii ''d''\<rparr>],
                   nextSeq := 5\<rparr>"

definition syncMsg :: "jsnumber option \<Rightarrow> wsMessage" where
  "syncMsg n = \<lparr>mtype = Sync, lastSeq = n, mdata = None, mcols = NaN, mrows = NaN\<rparr>"

text \<open>An upload branch that stores nothing and answers nothing, and a session in which
  the PTY is live with the session's exit callback registered.\<close>

definition upload0 :: "wsMessage \<Rightarrow> jsstring option \<Rightarrow> jsstring option \<times> serverMsg list" where
  "upload0 msg dir = (dir, [])"

definition session0 :: session where
  "session0 = \<lparr>cleaningUp = False, s_pty = onPTYExit SessionExit live_pty, s_web = two_clients,
                s_tunnel = atExit 7 [OutputEv (Some url0), OnTunnelCrashEv SessionCrash],
                exitCode = None, teardown = []\<rparr>"

text \<open>
  Runs of the relay over the live PTY on the terminal of 100 by 40. In the first, two
  clients connect and declare 80 by 24 and 120 by 50; the second goes on with the close
  of the first client. In the third, two clients connect and only the second declares
  a size, 120 by 50. The states are those the runs reach.
\<close>

definition resizeMsg :: "rat \<Rightarrow> rat \<Rightarrow> wsMessage" where
  "resizeMsg c r = \<lparr>mtype = ResizeMsg, lastSeq = None, mdata = None, mcols = Num c, mrows = Num r\<rparr>"

definition two_declare :: "relayEvent list" where
  "two_declare = [Accept 0, Accept 1, Message 0 2 (Some (resizeMsg 80 24)),
                  Message 1 3 (Some (resizeMsg 120 50))]"

definition one_undeclared :: "relayEvent list" where
  "one_undeclared = [Accept 0, Accept 1, Message 1 2 (Some (resizeMsg 120 50))]"

definition with_calls :: "ptyCall list \<Rightarrow> pty_state" where
  "with_calls cs = live_pty\<lparr>procs := [(procs live_pty ! 0)\<lparr>calls := cs\<rparr>]\<rparr>"

definition client :: "int \<Rightarrow> int \<Rightarrow> clientInfo" where
  "client c r = \<lparr>cols = c, rows = r, synced = False\<rparr>"

definition after_two_declare :: relay where
  "after_two_declare =
     \<lparr>r_web = web_init\<lparr>connectedClients := [(0, client 80 24), (1, client 120 50)],
                        clientIdCounter := 2\<rparr>,
      r_pty = with_calls [Resize 80 24, Resize 80 24],
      r_conns = [(0, \<lparr>info = client 80 24, msgCount = 1, msgWindowStart = 0\<rparr>),
                 (1, \<lparr>info = client 120 50, msgCount = 1, msgWindowStart = 1\<rparr>)],
      r_next = 2\<rparr>"

definition after_close :: relay where
  "after_close =
     \<lparr>r_web = web_init\<lparr>connectedClients := [(1, client 120 50)], clientIdCounter := 2\<rparr>,
      r_pty = with_calls [Resize 80 24, Resize 80 24, Resize 100 40],
      r_conns = [(1, \<lparr>info = client 120 50, msgCount = 1, msgWindowStart = 1\<rparr>)],
      r_next = 2\<rparr>"

definition after_one_undeclared :: relay where
  "after_one_undeclared =
     \<lparr>r_web = web_init\<lparr>connectedClients := [(0, client 80 24), (1, client 120 50)],
                        clientIdCounter := 2\<rparr>,
      r_pty = with_calls [Resize 80 24],
      r_conns = [(0, \<lparr>info = client 80 24, msgCount = 0, msgWindowStart = 0\<rparr>),
                 (1, \<lparr>info = client 120 50, msgCount = 1, msgWindowStart = 1\<rparr>)],
      r_next = 2\<rparr>"


section \<open>Properties of safeEqual\<close>

lemma length_fit: "length (fit n es) \<le> n"
proof (induction es arbitrary: n)
  case Nil then show ?case by simp
next
  case (Cons e es)
  from Cons [of "n - length e"] show ?case by (simp; arith)
qed

lemma length_buf_write: "length (buf_write buf s) = length buf"
  using length_fit [of "length buf" "utf8_chars s"]
  by (simp add: buf_write_def Let_def)

lemma safeEqual_total: "\<exists>r. safeEqual a b = Inr r"
  by (simp add: safeEqual_def Let_def timingSafeEqual_def length_buf_write buf_alloc_def)

text \<open>
  C10. For every pair of strings of unequal length, \<open>safeEqual\<close> returns false (it does
  not throw: both buffers have the padded length, so the byte comparison is defined), so
  a candidate that is a strict prefix or an extension of the token is rejected.
\<close>

theorem safeEqual_unequal_length:
  "length a \<noteq> length b \<Longrightarrow> safeEqual a b = Inr False"
  by (simp add: safeEqual_def Let_def timingSafeEqual_def length_buf_write buf_alloc_def)

theorem safeEqual_unequal_length_witness:
  "length (ascii ''abcd'') \<noteq> length (ascii ''abcdef'')
   \<and> safeEqual (ascii ''abcd'') (ascii ''abcdef'') = Inr False
   \<and> safeEqual (ascii ''abcdef'') (ascii ''abcd'') = Inr False"
  using safeEqual_unequal_length [of "ascii ''abcd''" "ascii ''abcdef''"]
    safeEqual_unequal_length [of "ascii ''abcdef''" "ascii ''abcd''"]
  by (simp add: ascii_def)

section \<open>Properties of the output buffer\<close>

lemma clearAt_pos: "clearAt s = Some n \<Longrightarrow> 0 < n"
  by (auto simp: clearAt_def split: if_splits)

lemma matchAll_nonempty: "CLEAR_SCREEN_RE_test d \<Longrightarrow> matchAll i d \<noteq> []"
proof (induction d arbitrary: i)
  case Nil then show ?case by simp
next
  case (Cons x xs)
  show ?case
  proof (cases "clearAt (x # xs)")
    case None
    with Cons show ?thesis by simp
  next
    case (Some n)
    then show ?thesis by simp
  qed
qed

lemma gapless_upt: "gapless [a..<b]"
proof (induction "b - a" arbitrary: a)
  case 0 then show ?case by simp
next
  case (Suc k)
  then have ab: "a < b" by simp
  show ?case
  proof (cases "Suc a < b")
    case True
    have "gapless [Suc a..<b]" using Suc by simp
    with True ab show ?thesis by (simp add: upt_rec [of a b] upt_rec [of "Suc a" b])
  next
    case False
    with ab show ?thesis by (simp add: upt_rec [of a b] upt_rec [of "Suc a" b])
  qed
qed

lemma log_drop:
  assumes "map seq buf = [n - length buf ..< n]" and "length buf \<le> n"
  shows "map seq (drop k buf) = [n - length (drop k buf) ..< n]"
proof -
  have "map seq (drop k buf) = drop k (map seq buf)"
    by (simp add: drop_map)
  also have "\<dots> = drop k [n - length buf ..< n]"
    by (simp only: assms(1))
  also have "\<dots> = [n - length buf + k ..< n]"
    by simp
  also have "\<dots> = [n - length (drop k buf) ..< n]"
  proof (cases "k \<le> length buf")
    case True
    with assms(2) have "n - length buf + k = n - (length buf - k)" by arith
    then show ?thesis by simp
  next
    case False
    then show ?thesis by simp
  qed
  finally show ?thesis .
qed

lemma appendChunk_inv:
  assumes "log_inv st"
  shows "\<exists>st'. appendChunk d st = Inr st' \<and> log_inv st'"
proof (cases "CLEAR_SCREEN_RE_test d")
  case True
  then obtain m ms where "matchAll 0 d = m # ms"
    using matchAll_nonempty [of d 0] by (cases "matchAll 0 d") auto
  with True assms show ?thesis
    by (simp add: appendChunk_def Let_def log_inv_def)
next
  case False
  let ?n = "nextSeq st"
  let ?buf = "outputBuffer st @ [\<lparr>seq = ?n, data = d\<rparr>]"
  have l: "length (outputBuffer st) < ?n"
    using assms by (simp add: log_inv_def)
  have "map seq (outputBuffer st) = [?n - length (outputBuffer st) ..< ?n]"
    using assms by (simp add: log_inv_def)
  with l have pushed: "map seq ?buf = [Suc ?n - length ?buf ..< Suc ?n]"
    by simp
  have len: "length ?buf \<le> Suc ?n" using l by simp
  have dropped: "map seq (drop k ?buf) = [Suc ?n - length (drop k ?buf) ..< Suc ?n]" for k
    by (rule log_drop [OF pushed len])
  have short: "length (drop k ?buf) < Suc ?n" for k
    using l by simp
  show ?thesis
  proof (cases "length ?buf > MAX_BUFFER_SIZE")
    case True
    with False show ?thesis
      using dropped [of "length ?buf - BUFFER_TRIM_SIZE"] short [of "length ?buf - BUFFER_TRIM_SIZE"]
      by (simp add: appendChunk_def Let_def log_inv_def del: upt_Suc drop_append length_drop)
  next
    case nt: False
    with False show ?thesis
      using pushed l
      by (simp add: appendChunk_def Let_def log_inv_def del: upt_Suc)
  qed
qed

lemma feed_inv: "log_inv st \<Longrightarrow> \<exists>st'. feed ds st = Inr st' \<and> log_inv st'"
proof (induction ds arbitrary: st)
  case Nil then show ?case by simp
next
  case (Cons x ds)
  obtain opn d where x: "x = (opn, d)" by (cases x)
  from appendChunk_inv [OF Cons.prems, of d] obtain st1 where
    a: "appendChunk d st = Inr st1" and i: "log_inv st1" by blast
  from Cons.IH [OF i] show ?case using a x by (simp add: onPTYData_def)
qed

lemma log_inv_start: "log_inv (st\<lparr>outputBuffer := [], nextSeq := 1\<rparr>)"
  by (simp add: log_inv_def)

text \<open>
  C1. Whatever chunks the PTY-data handler is given, starting from the empty buffer (with
  the numbering at 1, as at start and after \<open>stopWebServer\<close>), the run ends without an
  exception and the sequence numbers retained go up by exactly one from each record to
  the next; this covers the runs with trims and with clear-screen truncations.
\<close>

theorem log_gapless:
  "\<exists>st'. feed ds (st\<lparr>outputBuffer := [], nextSeq := 1\<rparr>) = Inr st'
         \<and> gapless (map seq (outputBuffer st'))"
proof -
  from feed_inv [OF log_inv_start, of ds st] obtain st' where
    f: "feed ds (st\<lparr>outputBuffer := [], nextSeq := 1\<rparr>) = Inr st'" and i: "log_inv st'" by blast
  from i have "gapless (map seq (outputBuffer st'))"
    by (simp add: log_inv_def gapless_upt)
  with f show ?thesis by blast
qed

theorem log_gapless_witness:
  "\<exists>st'. feed log34 (web_init\<lparr>outputBuffer := [], nextSeq := 1\<rparr>) = Inr st'
         \<and> gapless (map seq (outputBuffer st'))"
  using log_gapless [of log34 web_init] .

lemma clearAt_prefix:
  "c \<in> set CLEAR_SEQS \<Longrightarrow> clearAt (c @ r) = Some (length c)"
  by (auto simp: CLEAR_SEQS_def clearAt_def CLEAR_J2_def CLEAR_J3_def CLEAR_C_def)

lemma clearAt_Some:
  "clearAt s = Some n \<Longrightarrow> take n s \<in> set CLEAR_SEQS \<and> n \<le> length s"
proof -
  assume a: "clearAt s = Some n"
  have len: "take k s = c \<Longrightarrow> length c = k \<Longrightarrow> k \<le> length s" for k c
  proof -
    assume "take k s = c" and "length c = k"
    then have "length (take k s) = k" by simp
    then show "k \<le> length s" by simp
  qed
  from a show ?thesis
    apply (auto simp: clearAt_def CLEAR_SEQS_def split: if_splits)
    apply (rule len [of 4 CLEAR_J2], simp, simp add: CLEAR_J2_def)
    apply (rule len [of 4 CLEAR_J3], simp, simp add: CLEAR_J3_def)
    apply (rule len [of 2 CLEAR_C], simp, simp add: CLEAR_C_def)
    done
qed

lemma test_append: "CLEAR_SCREEN_RE_test (p @ c @ s) " if "c \<in> set CLEAR_SEQS"
proof (induction p)
  case Nil
  have "c \<noteq> []" using that by (auto simp: CLEAR_SEQS_def CLEAR_J2_def CLEAR_J3_def CLEAR_C_def)
  then obtain x xs where "c @ s = x # xs" by (cases c) auto
  with clearAt_prefix [OF that, of s] show ?case by simp
next
  case (Cons a p) then show ?case by simp
qed

lemma test_iff:
  "CLEAR_SCREEN_RE_test d \<longleftrightarrow> (\<exists>p c s. c \<in> set CLEAR_SEQS \<and> d = p @ c @ s)"
proof
  show "CLEAR_SCREEN_RE_test d \<Longrightarrow> \<exists>p c s. c \<in> set CLEAR_SEQS \<and> d = p @ c @ s"
  proof (induction d)
    case Nil then show ?case by simp
  next
    case (Cons x xs)
    show ?case
    proof (cases "clearAt (x # xs)")
      case None
      with Cons obtain p c s where "c \<in> set CLEAR_SEQS" "xs = p @ c @ s" by auto
      then have "x # xs = (x # p) @ c @ s" by simp
      with \<open>c \<in> set CLEAR_SEQS\<close> show ?thesis by blast
    next
      case (Some n)
      from clearAt_Some [OF Some] have "take n (x # xs) \<in> set CLEAR_SEQS" by simp
      moreover have "x # xs = [] @ take n (x # xs) @ drop n (x # xs)" by simp
      ultimately show ?thesis by blast
    qed
  qed
next
  assume "\<exists>p c s. c \<in> set CLEAR_SEQS \<and> d = p @ c @ s"
  then show "CLEAR_SCREEN_RE_test d" using test_append by blast
qed

lemma matchAll_none: "\<not> CLEAR_SCREEN_RE_test X \<Longrightarrow> matchAll i X = []"
  by (induction X arbitrary: i) auto

lemma clear_hd: "c \<in> set CLEAR_SEQS \<Longrightarrow> c \<noteq> [] \<and> hd c = 0x1B"
  by (auto simp: CLEAR_SEQS_def CLEAR_J2_def CLEAR_J3_def CLEAR_C_def)

lemma clear_inner:
  "s \<in> set CLEAR_SEQS \<Longrightarrow> 0 < k \<Longrightarrow> k < length s \<Longrightarrow> s ! k \<noteq> 0x1B"
proof -
  assume s: "s \<in> set CLEAR_SEQS" and k: "0 < k" "k < length s"
  from s have "length s \<le> 4"
    by (auto simp: CLEAR_SEQS_def CLEAR_J2_def CLEAR_J3_def CLEAR_C_def)
  with k have "k = 1 \<or> k = 2 \<or> k = 3" by arith
  with s k show ?thesis
    by (auto simp: CLEAR_SEQS_def CLEAR_J2_def CLEAR_J3_def CLEAR_C_def)
qed

lemma clear_no_overlap:
  assumes c: "c \<in> set CLEAR_SEQS" and m: "clearAt (pre @ c @ X) = Some n" and p: "pre \<noteq> []"
  shows "n \<le> length pre"
proof (rule ccontr)
  assume "\<not> n \<le> length pre"
  then have k: "length pre < n" by simp
  let ?d = "pre @ c @ X"
  from clearAt_Some [OF m] have t: "take n ?d \<in> set CLEAR_SEQS" and n: "n \<le> length ?d" by simp_all
  have lt: "length (take n ?d) = n" using n by simp
  have "take n ?d ! length pre = ?d ! length pre" using k by (rule nth_take)
  also have "\<dots> = 0x1B" using clear_hd [OF c] by (cases c) (simp_all add: nth_append)
  finally have "take n ?d ! length pre = 0x1B" .
  moreover have "take n ?d ! length pre \<noteq> 0x1B"
  proof (rule clear_inner [OF t])
    show "0 < length pre" using p by simp
    show "length pre < length (take n ?d)" using k by (simp only: lt)
  qed
  ultimately show False by simp
qed

lemma matchAll_last:
  assumes c: "c \<in> set CLEAR_SEQS" and X: "\<not> CLEAR_SCREEN_RE_test X"
  shows "matchAll i (pre @ c @ X) \<noteq> [] \<and>
         last (matchAll i (pre @ c @ X)) = (i + length pre, length c)"
proof (induction "length pre" arbitrary: pre i rule: less_induct)
  case less
  show ?case
  proof (cases pre)
    case Nil
    from clear_hd [OF c] obtain x xs where cx: "c @ X = x # xs" by (cases c) auto
    have "clearAt (x # xs) = Some (length c)"
      using clearAt_prefix [OF c, of X] cx by simp
    then have "matchAll i (x # xs) =
        (i, length c) # matchAll (i + length c) (drop (length c) (x # xs))"
      by simp
    then have "matchAll i (c @ X) =
        (i, length c) # matchAll (i + length c) (drop (length c) (c @ X))"
      by (simp only: cx)
    then have "matchAll i (c @ X) = [(i, length c)]"
      using matchAll_none [OF X] by simp
    then show ?thesis using Nil by simp
  next
    case (Cons a pre')
    let ?d = "pre @ c @ X"
    have d: "?d = a # (pre' @ c @ X)" using Cons by simp
    show ?thesis
    proof (cases "clearAt ?d")
      case None
      then have "matchAll i ?d = matchAll (i + 1) (pre' @ c @ X)" using d by simp
      moreover have "length pre' < length pre" using Cons by simp
      ultimately show ?thesis using less [of pre' "i + 1"] Cons by simp
    next
      case (Some n)
      have np: "n \<le> length pre" using clear_no_overlap [OF c Some] Cons by simp
      have n0: "0 < n" using clearAt_pos [OF Some] .
      let ?pre'' = "drop n pre"
      have dd: "drop n ?d = ?pre'' @ c @ X" using np by simp
      have "matchAll i ?d = (i, n) # matchAll (i + n) (drop n ?d)"
        using Some d by simp
      moreover have "length ?pre'' < length pre" using n0 Cons by simp
      ultimately show ?thesis using less [of ?pre'' "i + n"] dd np by simp
    qed
  qed
qed

lemma clear_after_last:
  assumes "d = pre @ c @ X" and "c \<in> set CLEAR_SEQS" and "\<not> CLEAR_SCREEN_RE_test X"
  shows "appendChunk d st =
           Inr (st\<lparr>nextSeq := nextSeq st + 1,
                    outputBuffer := (if X = [] then [] else [\<lparr>seq = nextSeq st, data = X\<rparr>])\<rparr>)"
proof -
  have t: "CLEAR_SCREEN_RE_test d" using assms(1,2) test_append by simp
  from matchAll_last [OF assms(2,3), of 0 pre]
  have ne: "matchAll 0 d \<noteq> []" and l: "last (matchAll 0 d) = (length pre, length c)"
    using assms(1) by simp_all
  from ne obtain m ms where ms: "matchAll 0 d = m # ms" by (cases "matchAll 0 d") auto
  have "drop (length pre + length c) d = X" using assms(1) by simp
  with t ms l show ?thesis
    by (simp add: appendChunk_def Let_def del: last.simps drop_eq_Nil drop_eq_Nil2)
qed

text \<open>Every chunk with a clear-screen sequence has such a last one.\<close>

lemma last_clear_exists:
  "CLEAR_SCREEN_RE_test d \<Longrightarrow>
   \<exists>pre c X. d = pre @ c @ X \<and> c \<in> set CLEAR_SEQS \<and> \<not> CLEAR_SCREEN_RE_test X"
proof (induction "length d" arbitrary: d rule: less_induct)
  case less
  from less.prems obtain p c s where c: "c \<in> set CLEAR_SEQS" and d: "d = p @ c @ s"
    using test_iff by blast
  show ?case
  proof (cases "CLEAR_SCREEN_RE_test s")
    case False
    with c d show ?thesis by blast
  next
    case True
    have "c \<noteq> []" using clear_hd [OF c] by simp
    then have "length s < length d" using d by simp
    from less.hyps [OF this True] obtain pre c' X where
      "s = pre @ c' @ X" "c' \<in> set CLEAR_SEQS" "\<not> CLEAR_SCREEN_RE_test X" by blast
    then have "d = (p @ c @ pre) @ c' @ X" using d by simp
    with \<open>c' \<in> set CLEAR_SEQS\<close> \<open>\<not> CLEAR_SCREEN_RE_test X\<close> show ?thesis by blast
  qed
qed

text \<open>
  C3. When the chunk given to the PTY-data handler is \<open>pre @ c @ X\<close> with \<open>c\<close> a clear-screen
  sequence and no such sequence in \<open>X\<close> (so \<open>c\<close> is the last one of the chunk), the buffer
  afterwards holds \<open>X\<close> and nothing else: one record with the chunk's sequence number, or
  no record when \<open>X\<close> is empty. All earlier records, \<open>pre\<close> and \<open>c\<close> are gone, whatever
  the clients are.
\<close>

theorem clear_screen_truncates:
  assumes "d = pre @ c @ X" and "c \<in> set CLEAR_SEQS" and "\<not> CLEAR_SCREEN_RE_test X"
  shows "\<exists>sent. onPTYData opn d st =
           Inr (st\<lparr>nextSeq := nextSeq st + 1,
                    outputBuffer := (if X = [] then [] else [\<lparr>seq = nextSeq st, data = X\<rparr>])\<rparr>, sent)"
  using clear_after_last [OF assms, of st] by (simp add: onPTYData_def)

theorem clear_screen_truncates_witness:
  "CLEAR_J2 @ CLEAR_J3 @ ascii ''X'' = CLEAR_J2 @ CLEAR_J3 @ ascii ''X''
   \<and> CLEAR_J3 \<in> set CLEAR_SEQS
   \<and> \<not> CLEAR_SCREEN_RE_test (ascii ''X'')
   \<and> (\<exists>sent. onPTYData [] (CLEAR_J2 @ CLEAR_J3 @ ascii ''X'')
          (web_init\<lparr>outputBuffer := [\<lparr>seq = 1, data = ascii ''old''\<rparr>], nextSeq := 2\<rparr>) =
        Inr (web_init\<lparr>nextSeq := 3, outputBuffer := [\<lparr>seq = 2, data = ascii ''X''\<rparr>]\<rparr>, sent))"
  using clear_screen_truncates [of "CLEAR_J2 @ CLEAR_J3 @ ascii ''X''" CLEAR_J2 CLEAR_J3 "ascii ''X''" "[]"
      "web_init\<lparr>outputBuffer := [\<lparr>seq = 1, data = ascii ''old''\<rparr>], nextSeq := 2\<rparr>"]
  by (simp add: CLEAR_SEQS_def ascii_def clearAt_def web_init_def CLEAR_J2_def CLEAR_J3_def CLEAR_C_def)



section \<open>Properties of the sync handshake\<close>

lemma log_inv_oldest:
  assumes "log_inv st" and "outputBuffer st \<noteq> []"
  shows "1 \<le> seq (hd (outputBuffer st))"
proof -
  let ?l = "length (outputBuffer st)" and ?n = "nextSeq st"
  from assms have m: "map seq (outputBuffer st) = [?n - ?l ..< ?n]" and l: "?l < ?n" and p: "0 < ?l"
    by (simp_all add: log_inv_def)
  have "seq (hd (outputBuffer st)) = hd (map seq (outputBuffer st))"
    using assms(2) by (simp add: hd_map)
  also have "\<dots> = ?n - ?l" using m l p by (simp add: upt_rec [of "?n - ?l" ?n])
  finally show ?thesis using l by simp
qed

lemma js_ge_pos: "1 \<le> k \<Longrightarrow> js_ge x (num k) \<Longrightarrow> js_gt x (Num 0)"
  by (cases x) (auto simp: js_ge_def js_gt_def num_def)

lemma syncReply_spec:
  assumes "buf = [] \<or> 1 \<le> seq (hd buf)"
  shows "syncReply buf ls = spec_syncReply buf ls"
  using assms js_ge_pos [of "seq (hd buf)"]
  by (auto simp: syncReply_def spec_syncReply_def Let_def split: option.splits)

lemma rateCheck_info: "rateCheck now c = (d, c') \<Longrightarrow> info c' = info c"
  by (auto simp: rateCheck_def Let_def split: if_splits)

lemma feed34:
  "feed log34 (web_init\<lparr>outputBuffer := [], nextSeq := 1\<rparr>) =
     Inr (web_init\<lparr>outputBuffer := [\<lparr>seq = 3, data = ascii ''c''\<rparr>, \<lparr>seq = 4, data = ascii ''d''\<rparr>],
                   nextSeq := 5\<rparr>)"
  by (simp add: log34_def web_init_def onPTYData_def appendChunk_def ascii_def clearAt_def
      CLEAR_C_def CLEAR_J2_def CLEAR_J3_def Let_def MAX_BUFFER_SIZE_def)

text \<open>
  C2. Let the relay's buffer be one the PTY-data handler has produced, and let a sync
  message arrive on a connection that has not synced before and pass the rate check. The
  messages sent back are those of the specification: none on an empty log; when
  \<open>lastSeq\<close> is at least the oldest retained number, a \<open>history-delta\<close> with exactly the
  records after \<open>lastSeq\<close>, in order, or nothing when there are none; otherwise a
  \<open>history\<close> with the whole log in order and the newest number. A missing or non-numeric
  \<open>lastSeq\<close> counts as 0.
\<close>

theorem first_sync_reply:
  assumes "feed ds (w0\<lparr>outputBuffer := [], nextSeq := 1\<rparr>) = Inr wl"
    and "outputBuffer w = outputBuffer wl"
    and "\<not> synced (info c)"
    and "mtype msg = Sync"
    and "\<not> fst (rateCheck now c)"
  shows "snd (onMessage upload now ws (Some msg) (c, w, p)) =
           (case spec_syncReply (outputBuffer w) (lastSeq msg) of None \<Rightarrow> [] | Some r \<Rightarrow> [r])"
proof -
  from feed_inv [OF log_inv_start, of ds w0] assms(1) have "log_inv wl" by simp
  then have "outputBuffer wl = [] \<or> 1 \<le> seq (hd (outputBuffer wl))"
    using log_inv_oldest [of wl] by blast
  then have s: "syncReply (outputBuffer w) (lastSeq msg) = spec_syncReply (outputBuffer w) (lastSeq msg)"
    unfolding assms(2) by (rule syncReply_spec)
  obtain c' where r: "rateCheck now c = (False, c')"
    using assms(5) by (cases "rateCheck now c") auto
  from rateCheck_info [OF r] assms(3) have "\<not> synced (info c')" by simp
  with r s assms(4) show ?thesis
    by (simp add: onMessage_def Let_def)
qed

theorem first_sync_reply_witness:
  "feed log34 (web_init\<lparr>outputBuffer := [], nextSeq := 1\<rparr>) = Inr w34
   \<and> \<not> synced (info conn0) \<and> \<not> fst (rateCheck 5 conn0)
   \<and> snd (onMessage upload0 5 1 (Some (syncMsg (Some (Num 3)))) (conn0, w34, live_pty)) = [HistoryDelta [ascii ''d''] 4]
   \<and> snd (onMessage upload0 5 1 (Some (syncMsg (Some (Num 4)))) (conn0, w34, live_pty)) = []
   \<and> snd (onMessage upload0 5 1 (Some (syncMsg (Some (Num 2)))) (conn0, w34, live_pty)) = [History [ascii ''c'', ascii ''d''] 4]
   \<and> snd (onMessage upload0 5 1 (Some (syncMsg None)) (conn0, w34, live_pty)) = [History [ascii ''c'', ascii ''d''] 4]"
  using first_sync_reply [of log34 web_init w34 w34 conn0 "syncMsg (Some (Num 3))" 5 upload0 1 live_pty]
    first_sync_reply [of log34 web_init w34 w34 conn0 "syncMsg (Some (Num 4))" 5 upload0 1 live_pty]
    first_sync_reply [of log34 web_init w34 w34 conn0 "syncMsg (Some (Num 2))" 5 upload0 1 live_pty]
    first_sync_reply [of log34 web_init w34 w34 conn0 "syncMsg None" 5 upload0 1 live_pty]
    feed34
  by (simp add: w34_def syncMsg_def conn0_def rateCheck_def Let_def MSG_RATE_LIMIT_def 
      MSG_RATE_WINDOW_MS_def spec_syncReply_def js_ge_def js_gt_def num_def)

section \<open>Properties of the PTY supervisor\<close>

lemma live_pty_eq:
  "live_pty = \<lparr>procs = [\<lparr>command = ascii ''claude'', args = [], cwd = ascii ''/home'',
                          spawnCols = 100, spawnRows = 40, calls = []\<rparr>],
               ptyProcess = Some 0, dataCallbacks = [], exitCallbacks = [],
               resizeCallbacks = [], stdinListener = True, resizeListener = True,
               rawMode = True, localCols = 100, localRows = 40\<rparr>"
  by (simp add: live_pty_def spawnPTY_def env0_def opts0_def pty_init_def or_num_def or_str_def
      Let_def ascii_def)

text \<open>
  C5, as stated, fails: with a PTY live (handle 0), a second \<open>spawnPTY\<close> does not fail. It
  returns a new handle 1 and makes it the module's handle; the first subprocess is still
  there and has been sent nothing, no kill either.
\<close>

theorem spawn_while_live_counterexample:
  "ptyProcess live_pty = Some 0
   \<and> fst (spawnPTY opts0 env0 True live_pty) = Inr 1
   \<and> ptyProcess (snd (spawnPTY opts0 env0 True live_pty)) = Some 1
   \<and> length (procs (snd (spawnPTY opts0 env0 True live_pty))) = 2
   \<and> calls (procs (snd (spawnPTY opts0 env0 True live_pty)) ! 0) = []"
  by (simp add: live_pty_eq spawnPTY_def Let_def)

text \<open>
  C5, amended. \<open>spawnPTY\<close> does not look at the handle it has: whenever \<open>pty.spawn\<close>
  returns, also with a PTY live, it creates one more subprocess, returns its handle and
  makes it the one handle of the module; the subprocesses created before are left as
  they were.
\<close>

theorem spawnPTY_replaces_handle:
  "fst (spawnPTY options env True st) = Inr (length (procs st))
   \<and> ptyProcess (snd (spawnPTY options env True st)) = Some (length (procs st))
   \<and> length (procs (snd (spawnPTY options env True st))) = length (procs st) + 1
   \<and> take (length (procs st)) (procs (snd (spawnPTY options env True st))) = procs st"
  by (simp add: spawnPTY_def Let_def)

theorem spawnPTY_replaces_handle_witness:
  "fst (spawnPTY opts0 env0 True live_pty) = Inr (length (procs live_pty))
   \<and> ptyProcess (snd (spawnPTY opts0 env0 True live_pty)) = Some (length (procs live_pty))
   \<and> length (procs (snd (spawnPTY opts0 env0 True live_pty))) = length (procs live_pty) + 1
   \<and> take (length (procs live_pty)) (procs (snd (spawnPTY opts0 env0 True live_pty))) = procs live_pty"
  using spawnPTY_replaces_handle [of opts0 env0 live_pty] .

lemma sizeAfter_Resize: "sizeAfter sz (cs @ [Resize c r]) = (c, r)"
  by (induction sz cs rule: sizeAfter.induct) auto

text \<open>
  C6, as stated, fails for a request that changes nothing: with a PTY live at 100 by 40,
  a request for 100 by 40 is not a positive change, yet \<open>resizePTY\<close> hands it to the
  subprocess as one more resize.
\<close>

theorem resize_same_size_counterexample:
  "ptyProcess live_pty = Some 0
   \<and> ptySize (procs live_pty ! 0) = (100, 40)
   \<and> \<not> positive_change live_pty 100 40
   \<and> fst (resizePTY 100 40 live_pty) = None
   \<and> calls (procs live_pty ! 0) = []
   \<and> calls (procs (snd (resizePTY 100 40 live_pty)) ! 0) = [Resize 100 40]
   \<and> snd (resizePTY 100 40 live_pty) \<noteq> live_pty"
  by (simp add: live_pty_eq positive_change_def ptySize_def resizePTY_def addCall_def)

text \<open>
  C6, amended. \<open>resizePTY\<close> is a no-op when no PTY is live. With a PTY live, a request
  with a dimension that is not positive changes nothing either, neither the size of the
  PTY nor what the subprocess is sent: node-pty refuses it with an exception, which
  \<open>resizePTY\<close> lets through. Every request with both dimensions positive is carried out,
  also one for the size the PTY has: the resize is the last call on the handle, whose
  size is then the requested one.
\<close>

theorem resizePTY_forwards:
  "(ptyProcess st = None \<longrightarrow> resizePTY c r st = (None, st))
   \<and> (ptyProcess st = Some h \<and> (c \<le> 0 \<or> r \<le> 0) \<longrightarrow> resizePTY c r st = (Some ResizeError, st))
   \<and> (ptyProcess st = Some h \<and> h < length (procs st) \<and> 0 < c \<and> 0 < r \<longrightarrow>
        fst (resizePTY c r st) = None
        \<and> calls (procs (snd (resizePTY c r st)) ! h) = calls (procs st ! h) @ [Resize c r]
        \<and> ptySize (procs (snd (resizePTY c r st)) ! h) = (c, r)
        \<and> ptyProcess (snd (resizePTY c r st)) = Some h)"
  by (auto simp: resizePTY_def addCall_def ptySize_def sizeAfter_Resize)

theorem resizePTY_forwards_witness:
  "ptyProcess pty_init = None \<and> resizePTY 80 24 pty_init = (None, pty_init)
   \<and> ptyProcess live_pty = Some 0 \<and> 0 < length (procs live_pty)
   \<and> resizePTY 0 0 live_pty = (Some ResizeError, live_pty)
   \<and> resizePTY 80 (-1) live_pty = (Some ResizeError, live_pty)
   \<and> ptySize (procs live_pty ! 0) = (100, 40)
   \<and> calls (procs (snd (resizePTY 100 40 live_pty)) ! 0) = [Resize 100 40]
   \<and> ptySize (procs (snd (resizePTY 80 24 live_pty)) ! 0) = (80, 24)"
  using resizePTY_forwards [where st = pty_init and c = 80 and r = 24 and h = 0]
    resizePTY_forwards [where st = live_pty and c = 0 and r = 0 and h = 0]
    resizePTY_forwards [where st = live_pty and c = 80 and r = "-1" and h = 0]
    resizePTY_forwards [where st = live_pty and c = 100 and r = 40 and h = 0]
    resizePTY_forwards [where st = live_pty and c = 80 and r = 24 and h = 0]
  by (simp add: live_pty_eq pty_init_def ptySize_def)

section \<open>Properties of size arbitration\<close>

lemma minOver_Min:
  "minOver (a, b) cs =
     (Min (set (a # map cols (filter (\<lambda>ci. cols ci > 0 \<and> rows ci > 0) cs))),
      Min (set (b # map rows (filter (\<lambda>ci. cols ci > 0 \<and> rows ci > 0) cs))))"
proof (induction cs arbitrary: a b)
  case Nil then show ?case by simp
next
  case (Cons ci cs)
  let ?P = "\<lambda>ci. cols ci > 0 \<and> rows ci > 0"
  have ins: "finite S \<Longrightarrow> Min (insert (min x y) S) = min x (Min (insert y S))"
    for x y :: int and S
    by (cases "S = {}") (simp_all add: min.assoc)
  show ?case
  proof (cases "?P ci")
    case True
    then show ?thesis using Cons [of "min a (cols ci)" "min b (rows ci)"] ins by simp
  next
    case False
    then have "minOver (a, b) (ci # cs) = minOver (a, b) cs"
      and "filter ?P (ci # cs) = filter ?P cs"
      by auto
    then show ?thesis using Cons [of a b] by (simp only:)
  qed
qed

lemma Min_pos: "0 < (a::int) \<Longrightarrow> \<forall>x \<in> set xs. 0 < x \<Longrightarrow> 0 < Min (set (a # xs))"
  by simp

lemma resizePTY_size:
  assumes "ptyProcess p = Some h" and "h < length (procs p)" and "0 < c" and "0 < r"
  shows "fst (resizePTY c r p) = None \<and> ptySize (procs (snd (resizePTY c r p)) ! h) = (c, r)"
  using assms by (simp add: resizePTY_def addCall_def ptySize_def sizeAfter_Resize)

lemma applyMinSize_size:
  assumes "ptyProcess p = Some h" and "h < length (procs p)"
    and "0 < localCols p" and "0 < localRows p"
  shows "fst (applyMinSize w p) = None
     \<and> ptySize (procs (snd (applyMinSize w p)) ! h) =
         (Min (set (localCols p # map cols (positiveSizes w))),
          Min (set (localRows p # map rows (positiveSizes w))))"
proof -
  let ?c = "Min (set (localCols p # map cols (positiveSizes w)))"
  let ?r = "Min (set (localRows p # map rows (positiveSizes w)))"
  have c: "0 < ?c"
    using assms(3) by (intro Min_pos) (auto simp: positiveSizes_def)
  have r: "0 < ?r"
    using assms(4) by (intro Min_pos) (auto simp: positiveSizes_def)
  have a: "applyMinSize w p = resizePTY ?c ?r p"
  proof (cases "connectedClients w = []")
    case True
    then show ?thesis by (simp add: applyMinSize_def getLocalSize_def positiveSizes_def)
  next
    case False
    have "calculateMinSize w p = (?c, ?r)"
      by (simp only: calculateMinSize_def getLocalSize_def minOver_Min positiveSizes_def)
    with False c r show ?thesis by (simp add: applyMinSize_def)
  qed
  show ?thesis unfolding a by (rule resizePTY_size [OF assms(1,2) c r])
qed

text \<open>The PTY module keeps the local size positive as long as the terminal reports no
  negative size and no negative size is asked for.\<close>

lemma spawnPTY_local_positive:
  assumes "\<forall>v. o_cols options = Some v \<longrightarrow> 0 \<le> v" and "\<forall>v. o_rows options = Some v \<longrightarrow> 0 \<le> v"
    and "\<forall>v. stdout_columns env = Some v \<longrightarrow> 0 \<le> v" and "\<forall>v. stdout_rows env = Some v \<longrightarrow> 0 \<le> v"
  shows "0 < localCols (snd (spawnPTY options env ok st)) \<and> 0 < localRows (snd (spawnPTY options env ok st))"
  using assms by (auto simp: spawnPTY_def Let_def or_num_def split: option.splits)

lemma localResize_local_positive:
  assumes "0 < localCols st" and "0 < localRows st"
    and "\<forall>v. stdout_columns env = Some v \<longrightarrow> 0 \<le> v" and "\<forall>v. stdout_rows env = Some v \<longrightarrow> 0 \<le> v"
  shows "0 < localCols (snd (localResize env st)) \<and> 0 < localRows (snd (localResize env st))"
  using assms by (auto simp: localResize_def split: option.splits)

lemma map_set_fresh: "k \<notin> fst ` set m \<Longrightarrow> map_set k v m = m @ [(k, v)]"
  by (induction m) auto

lemma map_of_setConn_other: "k \<noteq> ws \<Longrightarrow> map_of (setConn ws c' cs) k = map_of cs k"
  by (induction cs) (auto simp: setConn_def)

lemma map_of_setConn_same: "map_of cs ws = Some c \<Longrightarrow> map_of (setConn ws c' cs) ws = Some c'"
  by (induction cs) (auto simp: setConn_def split: if_splits)

lemma setConn_keys: "fst ` set (setConn ws c cs) = fst ` set cs"
  by (induction cs) (auto simp: setConn_def)

lemma map_of_filter_key:
  "k \<noteq> ws \<Longrightarrow> map_of (filter (\<lambda>(k', v). k' \<noteq> ws) cs) k = map_of cs k"
  by (induction cs) auto

lemma agrees_length: "agrees tbl d \<Longrightarrow> length tbl = length d"
  by (simp add: agrees_def list_all2_lengthD)

lemma agrees_keys: "agrees tbl d \<Longrightarrow> map fst tbl = map fst d"
  unfolding agrees_def by (induction rule: list_all2_induct) auto

lemma agrees_filter:
  "agrees tbl d \<Longrightarrow> agrees (filter (\<lambda>(k, v). k \<noteq> ws) tbl) (filter (\<lambda>(k, v). k \<noteq> ws) d)"
  unfolding agrees_def by (induction rule: list_all2_induct) auto

lemma agrees_append:
  "agrees tbl d \<Longrightarrow> (cols ci, rows ci) = sizeOf x \<Longrightarrow> agrees (tbl @ [(k, ci)]) (d @ [(k, x)])"
  by (simp add: agrees_def list_all2_appendI)

lemma agrees_same_size:
  assumes "agrees tbl d"
    and "\<forall>ci. (ws, ci) \<in> set tbl \<longrightarrow> (cols ci', rows ci') = (cols ci, rows ci)"
  shows "agrees (map (\<lambda>(k, v). if k = ws then (k, ci') else (k, v)) tbl) d"
  using assms unfolding agrees_def
  by (induction rule: list_all2_induct) (auto split: if_splits)

lemma agrees_update:
  assumes "agrees tbl d" and "(cols ci', rows ci') = sz"
  shows "agrees (map (\<lambda>(k, v). if k = ws then (k, ci') else (k, v)) tbl)
                (map (\<lambda>(k, v). if k = ws then (k, Some sz) else (k, v)) d)"
  using assms unfolding agrees_def
  by (induction rule: list_all2_induct) (auto simp: sizeOf_def split: if_splits)

lemma agrees_map:
  "agrees tbl d \<Longrightarrow>
   map (\<lambda>(ws, ci). (ws, cols ci, rows ci)) tbl = map (\<lambda>(ws, x). (ws, sizeOf x)) d"
  unfolding agrees_def by (induction rule: list_all2_induct) auto

lemma integer_bounds:
  assumes "isInteger n"
  shows "js_gt n (Num 0) = (0 < intOf n)" and "js_le n (Num (of_int b)) = (intOf n \<le> b)"
proof -
  from assms obtain q where n: "n = Num q" and q: "of_int \<lfloor>q\<rfloor> = q"
    by (cases n) (auto simp: isInteger_def)
  obtain z where qz: "q = of_int z" using q [symmetric] by (rule that)
  show "js_gt n (Num 0) = (0 < intOf n)"
    by (simp add: n qz intOf_def js_gt_def)
  show "js_le n (Num (of_int b)) = (intOf n \<le> b)"
    by (auto simp: n qz intOf_def)
qed

lemma pty_frame_refl: "pty_frame p p"
  by (simp add: pty_frame_def)

lemma resizePTY_frame: "pty_frame p (snd (resizePTY c r p))"
  by (auto simp: resizePTY_def pty_frame_def split: option.splits)

lemma applyMinSize_frame: "pty_frame p (snd (applyMinSize w p))"
  using resizePTY_frame pty_frame_refl
  by (auto simp: applyMinSize_def getLocalSize_def split: prod.splits)

lemma writeToPTY_frame: "pty_frame p (writeToPTY d p)"
  by (auto simp: writeToPTY_def pty_frame_def split: option.splits)

lemma pty_frame_trans: "pty_frame p0 p \<Longrightarrow> pty_frame p p' \<Longrightarrow> pty_frame p0 p'"
  by (simp add: pty_frame_def)

lemma applyMinSize_no_error:
  "0 < localCols p \<Longrightarrow> 0 < localRows p \<Longrightarrow> fst (applyMinSize w p) = None"
  by (auto simp: applyMinSize_def getLocalSize_def resizePTY_def split: prod.splits option.splits)

lemma handler_accepts:
  assumes "mtype msg = ResizeMsg"
  shows "(isInteger (mcols msg) \<and> isInteger (mrows msg) \<and> js_gt (mcols msg) (Num 0)
          \<and> js_le (mcols msg) (Num 500) \<and> js_gt (mrows msg) (Num 0) \<and> js_le (mrows msg) (Num 200))
         = acceptedResize msg"
  using assms integer_bounds(1) [of "mcols msg"] integer_bounds(2) [of "mcols msg" 500]
    integer_bounds(1) [of "mrows msg"] integer_bounds(2) [of "mrows msg" 200]
  by (auto simp: acceptedResize_def)

lemma onMessage_effect:
  assumes "onMessage upload now ws m (c, w, p) = ((c', w', p'), sent)"
  shows "pty_frame p p'"
    and "accepted now c m \<Longrightarrow>
           connectedClients w' = map (\<lambda>(k, v). if k = ws then (k, info c') else (k, v)) (connectedClients w)
           \<and> (cols (info c'), rows (info c')) = (intOf (mcols (the m)), intOf (mrows (the m)))"
    and "\<not> accepted now c m \<Longrightarrow>
           (connectedClients w' = connectedClients w \<and> info c' = info c
            \<or> connectedClients w' = map (\<lambda>(k, v). if k = ws then (k, info c') else (k, v)) (connectedClients w))
           \<and> (cols (info c'), rows (info c')) = (cols (info c), rows (info c))"
proof -
  obtain dr c1 where rc: "rateCheck now c = (dr, c1)" by (cases "rateCheck now c")
  then have i1: "info c1 = info c" by (auto simp: rateCheck_def Let_def split: if_splits)
  note defs = onMessage_def setInfo_def Let_def accepted_def
  show "pty_frame p p'"
    using assms rc applyMinSize_frame writeToPTY_frame pty_frame_refl
    by (auto simp: defs split: bool.splits option.splits msgType.splits if_splits prod.splits)
  show "connectedClients w' = map (\<lambda>(k, v). if k = ws then (k, info c') else (k, v)) (connectedClients w)
           \<and> (cols (info c'), rows (info c')) = (intOf (mcols (the m)), intOf (mrows (the m)))"
    if "accepted now c m"
  proof -
    from that obtain msg where m: "m = Some msg" and nd: "\<not> dr" and a: "acceptedResize msg"
      using rc by (cases m) (auto simp: accepted_def)
    from a have t: "mtype msg = ResizeMsg" by (simp add: acceptedResize_def)
    from handler_accepts [OF t] a assms rc m nd t show ?thesis
      by (auto simp: defs)
  qed
  show "(connectedClients w' = connectedClients w \<and> info c' = info c
            \<or> connectedClients w' = map (\<lambda>(k, v). if k = ws then (k, info c') else (k, v)) (connectedClients w))
           \<and> (cols (info c'), rows (info c')) = (cols (info c), rows (info c))"
    if na: "\<not> accepted now c m"
  proof (cases dr)
    case True
    with assms rc i1 show ?thesis by (simp add: defs)
  next
    case nd: False
    show ?thesis
    proof (cases m)
      case None
      with assms rc i1 nd show ?thesis by (simp add: defs)
    next
      case (Some msg)
      with na nd rc have nr: "\<not> acceptedResize msg" by (simp add: accepted_def)
      show ?thesis
      proof (cases "mtype msg")
        case ResizeMsg
        from handler_accepts [OF this] nr
        have hf: "\<not> (isInteger (mcols msg) \<and> isInteger (mrows msg) \<and> js_gt (mcols msg) (Num 0)
          \<and> js_le (mcols msg) (Num 500) \<and> js_gt (mrows msg) (Num 0) \<and> js_le (mrows msg) (Num 200))"
          by blast
        from assms rc i1 nd Some ResizeMsg show ?thesis
          by (simp add: defs hf)
      next
        case Sync
        show ?thesis
        proof (cases "synced (info c1)")
          case True
          with assms rc i1 nd Some Sync show ?thesis by (simp add: defs)
        next
          case False
          with assms rc nd Some Sync have c': "c' = c1\<lparr>info := (info c1)\<lparr>synced := True\<rparr>\<rparr>"
            and w': "connectedClients w' =
              map (\<lambda>(k, v). if k = ws then (k, (info c1)\<lparr>synced := True\<rparr>) else (k, v)) (connectedClients w)"
            by (auto simp: defs)
          have ic: "(info c1)\<lparr>synced := True\<rparr> = info c'" using c' by simp
          have "connectedClients w' =
              map (\<lambda>(k, v). if k = ws then (k, info c') else (k, v)) (connectedClients w)"
            using w' by (simp only: ic)
          then have "connectedClients w' = connectedClients w \<and> info c' = info c
            \<or> connectedClients w' = map (\<lambda>(k, v). if k = ws then (k, info c') else (k, v)) (connectedClients w)"
            by (rule disjI2)
          moreover have "(cols (info c'), rows (info c')) = (cols (info c), rows (info c))"
            using c' i1 by simp
          ultimately show ?thesis by (rule conjI)
        qed
      next
        case Input
        with assms rc i1 nd Some show ?thesis
          by (cases "mdata msg") (auto simp: defs)
      next
        case ImageUpload
        with assms rc i1 nd Some show ?thesis
          by (cases "mdata msg") (auto simp: defs split: prod.splits)
      next
        case OtherType
        with assms rc i1 nd Some show ?thesis by (auto simp: defs)
      qed
    qed
  qed
qed

lemma in_updated:
  "(k, ci) \<in> set (map (\<lambda>(k, v). if k = ws then (k, x) else (k, v)) tbl) \<Longrightarrow>
   (k = ws \<and> ci = x) \<or> (k \<noteq> ws \<and> (k, ci) \<in> set tbl)"
  by (induction tbl) (auto split: if_splits)

lemma keys_updated:
  "fst ` set (map (\<lambda>(k, v). if k = ws then (k, x) else (k, v)) tbl) = fst ` set tbl"
  by (induction tbl) auto

lemma filter_absent: "ws \<notin> fst ` set d \<Longrightarrow> filter (\<lambda>(k, v). k \<noteq> ws) d = d"
  by (induction d) auto

lemma map_of_append_fresh:
  "k \<notin> fst ` set cs \<Longrightarrow> map_of (cs @ [(k, c)]) k' = (if k' = k then Some c else map_of cs k')"
  by (induction cs) auto

lemma map_of_None_keys: "map_of cs k = None \<Longrightarrow> k \<notin> fst ` set cs"
  by (simp add: map_of_eq_None_iff)

lemma rel_invI:
  assumes "agrees (connectedClients (r_web s)) d"
    and "\<And>ws ci. (ws, ci) \<in> set (connectedClients (r_web s)) \<Longrightarrow>
            \<exists>c. map_of (r_conns s) ws = Some c \<and> info c = ci"
    and "\<And>k ci. (k, ci) \<in> set (connectedClients (r_web s)) \<Longrightarrow> k < r_next s"
    and "\<And>k c. (k, c) \<in> set (r_conns s) \<Longrightarrow> k < r_next s"
    and "\<And>k x. (k, x) \<in> set d \<Longrightarrow> 0 < fst (sizeOf x) \<and> 0 < snd (sizeOf x)"
  shows "rel_inv s d"
  using assms unfolding rel_inv_def by fastforce

lemma rel_inv_agrees: "rel_inv s d \<Longrightarrow> agrees (connectedClients (r_web s)) d"
  by (simp add: rel_inv_def)

lemma rel_inv_closure:
  "rel_inv s d \<Longrightarrow> (ws, ci) \<in> set (connectedClients (r_web s)) \<Longrightarrow>
   \<exists>c. map_of (r_conns s) ws = Some c \<and> info c = ci"
  unfolding rel_inv_def by blast

lemma rel_inv_tbl_fresh:
  "rel_inv s d \<Longrightarrow> (k, ci) \<in> set (connectedClients (r_web s)) \<Longrightarrow> k < r_next s"
  unfolding rel_inv_def by force

lemma rel_inv_conn_fresh: "rel_inv s d \<Longrightarrow> (k, c) \<in> set (r_conns s) \<Longrightarrow> k < r_next s"
  unfolding rel_inv_def by force

lemma rel_inv_pos: "rel_inv s d \<Longrightarrow> (k, x) \<in> set d \<Longrightarrow> 0 < fst (sizeOf x) \<and> 0 < snd (sizeOf x)"
  unfolding rel_inv_def by blast

lemma rel_inv_no_closure:
  assumes "rel_inv s d" and "map_of (r_conns s) ws = None"
  shows "ws \<notin> fst ` set d"
proof
  assume "ws \<in> fst ` set d"
  then have "ws \<in> set (map fst d)" by simp
  then have "ws \<in> set (map fst (connectedClients (r_web s)))"
    using agrees_keys [OF rel_inv_agrees [OF assms(1)]] by simp
  then obtain ci where "(ws, ci) \<in> set (connectedClients (r_web s))" by auto
  from rel_inv_closure [OF assms(1) this] assms(2) show False by simp
qed

lemma accept_inv:
  assumes inv: "rel_inv s d" and step: "relayStep upload (Accept now) s = Inr s'"
  shows "rel_inv s' (declare_step (Accept now) s d)" and "r_pty s' = r_pty s"
proof -
  let ?tbl = "connectedClients (r_web s)"
  let ?ws = "r_next s"
  have len: "length ?tbl = length d" by (rule agrees_length [OF rel_inv_agrees [OF inv]])
  have fresh_t: "?ws \<notin> fst ` set ?tbl" using rel_inv_tbl_fresh [OF inv, of ?ws] by fastforce
  have fresh_c: "?ws \<notin> fst ` set (r_conns s)" using rel_inv_conn_fresh [OF inv, of ?ws] by fastforce
  show "r_pty s' = r_pty s"
    using step by (auto simp: onConnection_def Let_def split: if_splits)
  show "rel_inv s' (declare_step (Accept now) s d)"
  proof (cases "length ?tbl \<ge> MAX_CONNECTIONS")
    case True
    then have s': "s' = s\<lparr>r_next := ?ws + 1\<rparr>" using step by (simp add: onConnection_def)
    have d': "declare_step (Accept now) s d = d" using True len by simp
    show ?thesis unfolding s' d'
    proof (rule rel_invI)
      show "agrees (connectedClients (r_web (s\<lparr>r_next := ?ws + 1\<rparr>))) d"
        using rel_inv_agrees [OF inv] by simp
    next
      fix ws ci assume "(ws, ci) \<in> set (connectedClients (r_web (s\<lparr>r_next := ?ws + 1\<rparr>)))"
      then show "\<exists>c. map_of (r_conns (s\<lparr>r_next := ?ws + 1\<rparr>)) ws = Some c \<and> info c = ci"
        using rel_inv_closure [OF inv, of ws ci] by simp
    next
      fix k ci assume "(k, ci) \<in> set (connectedClients (r_web (s\<lparr>r_next := ?ws + 1\<rparr>)))"
      then show "k < r_next (s\<lparr>r_next := ?ws + 1\<rparr>)"
        using rel_inv_tbl_fresh [OF inv, of k ci] by simp
    next
      fix k c assume "(k, c) \<in> set (r_conns (s\<lparr>r_next := ?ws + 1\<rparr>))"
      then show "k < r_next (s\<lparr>r_next := ?ws + 1\<rparr>)"
        using rel_inv_conn_fresh [OF inv, of k c] by simp
    next
      fix k x assume "(k, x) \<in> set d"
      then show "0 < fst (sizeOf x) \<and> 0 < snd (sizeOf x)" by (rule rel_inv_pos [OF inv])
    qed
  next
    case False
    let ?ci = "\<lparr>cols = 80, rows = 24, synced = False\<rparr>"
    let ?c = "\<lparr>info = ?ci, msgCount = 0, msgWindowStart = now\<rparr>"
    have tbl': "connectedClients (r_web s') = ?tbl @ [(?ws, ?ci)]"
      and conns': "r_conns s' = r_conns s @ [(?ws, ?c)]" and next': "r_next s' = ?ws + 1"
      using step False map_set_fresh [OF fresh_t] by (auto simp: onConnection_def Let_def)
    have d': "declare_step (Accept now) s d = d @ [(?ws, None)]" using False len by simp
    show ?thesis unfolding d'
    proof (rule rel_invI)
      show "agrees (connectedClients (r_web s')) (d @ [(?ws, None)])"
        unfolding tbl' by (rule agrees_append [OF rel_inv_agrees [OF inv]]) (simp add: sizeOf_def)
    next
      fix ws ci assume "(ws, ci) \<in> set (connectedClients (r_web s'))"
      then consider "(ws, ci) \<in> set ?tbl" | "ws = ?ws" "ci = ?ci" unfolding tbl' by auto
      then show "\<exists>c. map_of (r_conns s') ws = Some c \<and> info c = ci"
      proof cases
        case 1
        then have "ws \<noteq> ?ws" using fresh_t by force
        with rel_inv_closure [OF inv 1] show ?thesis
          unfolding conns' by (simp add: map_of_append_fresh [OF fresh_c] del: map_of_append)
      next
        case 2
        then show ?thesis unfolding conns' by (simp add: map_of_append_fresh [OF fresh_c] del: map_of_append)
      qed
    next
      fix k ci assume "(k, ci) \<in> set (connectedClients (r_web s'))"
      then show "k < r_next s'" unfolding tbl' next'
        using rel_inv_tbl_fresh [OF inv, of k ci] by auto
    next
      fix k c assume "(k, c) \<in> set (r_conns s')"
      then show "k < r_next s'" unfolding conns' next'
        using rel_inv_conn_fresh [OF inv, of k c] by auto
    next
      fix k x assume "(k, x) \<in> set (d @ [(?ws, None)])"
      then show "0 < fst (sizeOf x) \<and> 0 < snd (sizeOf x)"
        using rel_inv_pos [OF inv, of k x] by (auto simp: sizeOf_def)
    qed
  qed
qed

lemma setConn_member:
  "(k, c) \<in> set (setConn ws c' cs) \<Longrightarrow> \<exists>c0. (k, c0) \<in> set cs"
  by (induction cs) (auto simp: setConn_def split: if_splits)

lemma declare_not_accepted:
  assumes "map_of (r_conns s) ws = Some c" and "\<not> accepted now c m"
  shows "declare_step (Message ws now m) s d = d"
  using assms by (cases m) (auto simp: accepted_def)

lemma declare_accepted:
  assumes "map_of (r_conns s) ws = Some c" and "accepted now c m"
  shows "declare_step (Message ws now m) s d =
     map (\<lambda>(k, v). if k = ws then (k, Some (intOf (mcols (the m)), intOf (mrows (the m)))) else (k, v)) d"
  using assms by (cases m) (auto simp: accepted_def)

lemma declare_no_closure:
  "map_of (r_conns s) ws = None \<Longrightarrow> declare_step (Message ws now m) s d = d"
  by (cases m) auto

lemma message_inv:
  assumes inv: "rel_inv s d" and step: "relayStep upload (Message ws now m) s = Inr s'"
  shows "rel_inv s' (declare_step (Message ws now m) s d)" and "pty_frame (r_pty s) (r_pty s')"
proof -
  let ?tbl = "connectedClients (r_web s)"
  show "rel_inv s' (declare_step (Message ws now m) s d)"
  proof (cases "map_of (r_conns s) ws")
    case None
    with step have "s' = s" by simp
    with inv declare_no_closure [OF None] show ?thesis by simp
  next
    case (Some c)
    obtain c' w' p' sent where om: "onMessage upload now ws m (c, r_web s, r_pty s) = ((c', w', p'), sent)"
      by (cases "onMessage upload now ws m (c, r_web s, r_pty s)") auto
    with step Some have s': "s' = s\<lparr>r_web := w', r_pty := p', r_conns := setConn ws c' (r_conns s)\<rparr>"
      by simp
    let ?upd = "map (\<lambda>(k, v). if k = ws then (k, info c') else (k, v)) ?tbl"
    have own: "ci = info c" if "(ws, ci) \<in> set ?tbl" for ci
      using rel_inv_closure [OF inv that] Some by simp
    \<comment> \<open>the closures and the freshness of the keys, whatever the message\<close>
    have closure_upd: "\<exists>c0. map_of (setConn ws c' (r_conns s)) k = Some c0 \<and> info c0 = ci"
      if "(k, ci) \<in> set ?upd" for k ci
    proof -
      from in_updated [OF that] consider "k = ws" "ci = info c'" | "k \<noteq> ws" "(k, ci) \<in> set ?tbl"
        by blast
      then show ?thesis
      proof cases
        case 1
        then show ?thesis using map_of_setConn_same [OF Some] by simp
      next
        case 2
        then show ?thesis
          using rel_inv_closure [OF inv 2(2)] by (simp add: map_of_setConn_other)
      qed
    qed
    have closure_same: "\<exists>c0. map_of (setConn ws c' (r_conns s)) k = Some c0 \<and> info c0 = ci"
      if "(k, ci) \<in> set ?tbl" and "info c' = info c" for k ci
    proof (cases "k = ws")
      case True
      with own that show ?thesis using map_of_setConn_same [OF Some] by simp
    next
      case False
      then show ?thesis
        using rel_inv_closure [OF inv that(1)] by (simp add: map_of_setConn_other)
    qed
    have fresh_c: "k < r_next s" if "(k, c0) \<in> set (setConn ws c' (r_conns s))" for k c0
      using setConn_member [OF that] rel_inv_conn_fresh [OF inv] by blast
    have fresh_upd: "k < r_next s" if "(k, ci) \<in> set ?upd" for k ci
    proof -
      from in_updated [OF that] consider "k = ws" | "(k, ci) \<in> set ?tbl" by blast
      then show ?thesis
      proof cases
        case 1
        from Some have "(ws, c) \<in> set (r_conns s)" by (rule map_of_SomeD)
        with 1 show ?thesis using rel_inv_conn_fresh [OF inv] by blast
      next
        case 2
        then show ?thesis by (rule rel_inv_tbl_fresh [OF inv])
      qed
    qed
    show ?thesis
    proof (cases "accepted now c m")
      case True
      from onMessage_effect(2) [OF om True]
      have tbl': "connectedClients w' = ?upd"
        and sz: "(cols (info c'), rows (info c')) = (intOf (mcols (the m)), intOf (mrows (the m)))"
        by simp_all
      let ?d' = "map (\<lambda>(k, v). if k = ws then (k, Some (intOf (mcols (the m)), intOf (mrows (the m)))) else (k, v)) d"
      from True obtain msg where m: "m = Some msg" and ar: "acceptedResize msg"
        by (cases m) (auto simp: accepted_def)
      show ?thesis unfolding declare_accepted [OF Some True]
      proof (rule rel_invI)
        show "agrees (connectedClients (r_web s')) ?d'"
          unfolding s' using agrees_update [OF rel_inv_agrees [OF inv] sz, of ws] tbl' by simp
      next
        fix k ci assume "(k, ci) \<in> set (connectedClients (r_web s'))"
        then show "\<exists>c. map_of (r_conns s') k = Some c \<and> info c = ci"
          unfolding s' using closure_upd [of k ci] tbl' by simp
      next
        fix k ci assume "(k, ci) \<in> set (connectedClients (r_web s'))"
        then show "k < r_next s'" unfolding s' using fresh_upd [of k ci] tbl' by simp
      next
        fix k c0 assume "(k, c0) \<in> set (r_conns s')"
        then show "k < r_next s'" unfolding s' using fresh_c [of k c0] by simp
      next
        fix k x assume "(k, x) \<in> set ?d'"
        then consider "x = Some (intOf (mcols (the m)), intOf (mrows (the m)))" | "(k, x) \<in> set d"
          by (auto split: if_splits)
        then show "0 < fst (sizeOf x) \<and> 0 < snd (sizeOf x)"
        proof cases
          case 1
          with m ar show ?thesis by (simp add: sizeOf_def acceptedResize_def)
        next
          case 2
          then show ?thesis by (rule rel_inv_pos [OF inv])
        qed
      qed
    next
      case False
      from onMessage_effect(3) [OF om False]
      have alt: "connectedClients w' = ?tbl \<and> info c' = info c \<or> connectedClients w' = ?upd"
        and sz: "(cols (info c'), rows (info c')) = (cols (info c), rows (info c))"
        by simp_all
      have same: "\<forall>ci. (ws, ci) \<in> set ?tbl \<longrightarrow> (cols (info c'), rows (info c')) = (cols ci, rows ci)"
        using own sz by auto
      show ?thesis unfolding declare_not_accepted [OF Some False]
      proof (rule rel_invI)
        show "agrees (connectedClients (r_web s')) d"
          using alt agrees_same_size [OF rel_inv_agrees [OF inv] same] rel_inv_agrees [OF inv]
          unfolding s' by auto
      next
        fix k ci assume "(k, ci) \<in> set (connectedClients (r_web s'))"
        then show "\<exists>c. map_of (r_conns s') k = Some c \<and> info c = ci"
          unfolding s' using alt closure_upd [of k ci] closure_same [of k ci] by auto
      next
        fix k ci assume "(k, ci) \<in> set (connectedClients (r_web s'))"
        then show "k < r_next s'"
          unfolding s' using alt fresh_upd [of k ci] rel_inv_tbl_fresh [OF inv, of k ci] by auto
      next
        fix k c0 assume "(k, c0) \<in> set (r_conns s')"
        then show "k < r_next s'" unfolding s' using fresh_c [of k c0] by simp
      next
        fix k x assume "(k, x) \<in> set d"
        then show "0 < fst (sizeOf x) \<and> 0 < snd (sizeOf x)" by (rule rel_inv_pos [OF inv])
      qed
    qed
  qed
  show "pty_frame (r_pty s) (r_pty s')"
  proof (cases "map_of (r_conns s) ws")
    case None
    with step show ?thesis by (auto simp: pty_frame_refl)
  next
    case (Some c)
    obtain c' w' p' sent where om: "onMessage upload now ws m (c, r_web s, r_pty s) = ((c', w', p'), sent)"
      by (cases "onMessage upload now ws m (c, r_web s, r_pty s)") auto
    with step Some have "r_pty s' = p'" by auto
    with onMessage_effect(1) [OF om] show ?thesis by simp
  qed
qed

lemma filter_member: "(k, x) \<in> set (filter (\<lambda>(k, v). k \<noteq> ws) xs) \<Longrightarrow> k \<noteq> ws \<and> (k, x) \<in> set xs"
  by auto

lemma removed_inv:
  assumes inv: "rel_inv s d"
    and w': "connectedClients (r_web s') = map_delete ws (connectedClients (r_web s))"
    and c': "r_conns s' = r_conns s \<or> r_conns s' = filter (\<lambda>(k, v). k \<noteq> ws) (r_conns s)"
    and n': "r_next s' = r_next s"
  shows "rel_inv s' (filter (\<lambda>(k, v). k \<noteq> ws) d)"
proof (rule rel_invI)
  show "agrees (connectedClients (r_web s')) (filter (\<lambda>(k, v). k \<noteq> ws) d)"
    unfolding w' map_delete_def by (rule agrees_filter [OF rel_inv_agrees [OF inv]])
next
  fix k ci assume "(k, ci) \<in> set (connectedClients (r_web s'))"
  then have k: "k \<noteq> ws" and m: "(k, ci) \<in> set (connectedClients (r_web s))"
    unfolding w' map_delete_def by auto
  from rel_inv_closure [OF inv m] c' k show "\<exists>c. map_of (r_conns s') k = Some c \<and> info c = ci"
    by (auto simp: map_of_filter_key)
next
  fix k ci assume "(k, ci) \<in> set (connectedClients (r_web s'))"
  then have "(k, ci) \<in> set (connectedClients (r_web s))" unfolding w' map_delete_def by auto
  then show "k < r_next s'" unfolding n' by (rule rel_inv_tbl_fresh [OF inv])
next
  fix k c assume "(k, c) \<in> set (r_conns s')"
  with c' have "(k, c) \<in> set (r_conns s)" by auto
  then show "k < r_next s'" unfolding n' by (rule rel_inv_conn_fresh [OF inv])
next
  fix k x assume "(k, x) \<in> set (filter (\<lambda>(k, v). k \<noteq> ws) d)"
  then have "(k, x) \<in> set d" by auto
  then show "0 < fst (sizeOf x) \<and> 0 < snd (sizeOf x)" by (rule rel_inv_pos [OF inv])
qed

lemma error_inv:
  assumes inv: "rel_inv s d" and step: "relayStep upload (SockError ws) s = Inr s'"
  shows "rel_inv s' (declare_step (SockError ws) s d)" and "r_pty s' = r_pty s"
proof -
  show "r_pty s' = r_pty s" using step by (auto split: option.splits)
  show "rel_inv s' (declare_step (SockError ws) s d)"
  proof (cases "map_of (r_conns s) ws")
    case None
    with step have "s' = s" by simp
    with inv filter_absent [OF rel_inv_no_closure [OF inv None]] show ?thesis by simp
  next
    case (Some c)
    with step have "s' = s\<lparr>r_web := onWsError ws (r_web s)\<rparr>" by simp
    then show ?thesis using removed_inv [OF inv, of s' ws] by (simp add: onWsError_def)
  qed
qed

lemma close_inv:
  assumes inv: "rel_inv s d" and step: "relayStep upload (SockClose ws) s = Inr s'"
  shows "rel_inv s' (declare_step (SockClose ws) s d)" and "pty_frame (r_pty s) (r_pty s')"
proof -
  show "rel_inv s' (declare_step (SockClose ws) s d)"
  proof (cases "map_of (r_conns s) ws")
    case None
    with step have "s' = s" by simp
    with inv filter_absent [OF rel_inv_no_closure [OF inv None]] show ?thesis by simp
  next
    case (Some c)
    with step have "connectedClients (r_web s') = map_delete ws (connectedClients (r_web s))"
      and "r_conns s' = filter (\<lambda>(k, v). k \<noteq> ws) (r_conns s)" and "r_next s' = r_next s"
      by (auto simp: onWsClose_def Let_def split: prod.splits option.splits)
    then show ?thesis using removed_inv [OF inv, of s' ws] by simp
  qed
  show "pty_frame (r_pty s) (r_pty s')"
  proof (cases "map_of (r_conns s) ws")
    case None
    with step show ?thesis by (auto simp: pty_frame_refl)
  next
    case (Some c)
    let ?w = "(r_web s)\<lparr>connectedClients := map_delete ws (connectedClients (r_web s))\<rparr>"
    obtain e p' where am: "applyMinSize ?w (r_pty s) = (e, p')"
      by (cases "applyMinSize ?w (r_pty s)")
    with step Some have "r_pty s' = p'"
      by (auto simp: onWsClose_def Let_def split: option.splits)
    with applyMinSize_frame [of "r_pty s" ?w] am show ?thesis by simp
  qed
qed

lemma relayStep_inv:
  assumes "rel_inv s d" and "relayStep upload e s = Inr s'"
  shows "rel_inv s' (declare_step e s d)" and "pty_frame (r_pty s) (r_pty s')"
  using assms accept_inv [of s d upload _ s'] message_inv [of s d upload _ _ _ s']
    error_inv [of s d upload _ s'] close_inv [of s d upload _ s']
  by (cases e; simp add: pty_frame_refl)+

lemma relayStep_no_error:
  assumes "0 < localCols (r_pty s)" and "0 < localRows (r_pty s)"
  shows "\<exists>s'. relayStep upload e s = Inr s'"
proof (cases e)
  case (SockClose ws)
  let ?w = "(r_web s)\<lparr>connectedClients := map_delete ws (connectedClients (r_web s))\<rparr>"
  obtain e p' where am: "applyMinSize ?w (r_pty s) = (e, p')"
    by (cases "applyMinSize ?w (r_pty s)")
  with applyMinSize_no_error [OF assms, of ?w] have "e = None" by simp
  with am SockClose show ?thesis
    by (auto simp: onWsClose_def Let_def split: option.splits)
qed (auto split: option.splits prod.splits)

lemma relayRun_inv:
  assumes "rel_inv s d" and "0 < localCols (r_pty s)" and "0 < localRows (r_pty s)"
  shows "\<exists>s' d'. relayRun upload evs (s, d) = Inr (s', d') \<and> rel_inv s' d'
           \<and> pty_frame (r_pty s) (r_pty s')"
  using assms
proof (induction evs arbitrary: s d)
  case Nil
  then show ?case by (simp add: pty_frame_refl)
next
  case (Cons e evs)
  from relayStep_no_error [OF Cons.prems(2,3), of upload e] obtain s1 where
    st: "relayStep upload e s = Inr s1" by blast
  from relayStep_inv [OF Cons.prems(1) st] have i1: "rel_inv s1 (declare_step e s d)"
    and f1: "pty_frame (r_pty s) (r_pty s1)" by simp_all
  from f1 Cons.prems(2,3) have "0 < localCols (r_pty s1)" and "0 < localRows (r_pty s1)"
    by (simp_all add: pty_frame_def)
  from Cons.IH [OF i1 this] obtain s' d' where
    "relayRun upload evs (s1, declare_step e s d) = Inr (s', d')" and "rel_inv s' d'"
    and "pty_frame (r_pty s1) (r_pty s')" by blast
  with st f1 show ?case by (auto intro: pty_frame_trans)
qed

lemma rel_inv_start: "rel_inv (relay0 p) []"
  by (simp add: rel_inv_def agrees_def relay0_def web_init_def)

lemma agrees_sizes:
  assumes "agrees tbl d" and "\<forall>(k, x) \<in> set d. 0 < fst (sizeOf x) \<and> 0 < snd (sizeOf x)"
  shows "filter (\<lambda>ci. cols ci > 0 \<and> rows ci > 0) (map snd tbl) = map snd tbl"
    and "map cols (map snd tbl) = map (\<lambda>(ws, x). fst (sizeOf x)) d"
    and "map rows (map snd tbl) = map (\<lambda>(ws, x). snd (sizeOf x)) d"
  using assms unfolding agrees_def
  by (induction rule: list_all2_induct) (auto simp: prod_eq_iff)

lemmas run_defs = relay0_def web_init_def onConnection_def onMessage_def rateCheck_def Let_def
  MAX_CONNECTIONS_def MSG_RATE_LIMIT_def MSG_RATE_WINDOW_MS_def resizeMsg_def isInteger_def
  intOf_def js_gt_def setInfo_def setConn_def applyMinSize_def calculateMinSize_def
  getLocalSize_def resizePTY_def addCall_def acceptedResize_def onWsClose_def map_delete_def
  with_calls_def client_def live_pty_eq

lemma run_two_declare:
  "relayRun upload0 two_declare (relay0 live_pty, []) =
     Inr (after_two_declare, [(0, Some (80, 24)), (1, Some (120, 50))])"
  by (simp add: two_declare_def after_two_declare_def run_defs)

lemma run_close:
  "relayRun upload0 (two_declare @ [SockClose 0]) (relay0 live_pty, []) =
     Inr (after_close, [(1, Some (120, 50))])"
  by (simp add: two_declare_def after_close_def run_defs)

lemma run_one_undeclared:
  "relayRun upload0 one_undeclared (relay0 live_pty, []) =
     Inr (after_one_undeclared, [(0, None), (1, Some (120, 50))])"
  by (simp add: one_undeclared_def after_one_undeclared_def run_defs)

text \<open>
  C4, as stated, fails when a connected client has declared no size. On a terminal of
  100 by 40, two clients connect and the second declares 120 by 50: the minimum of the
  local size and the declared sizes is 100 by 40, but the re-arbitration that the resize
  message starts sets the PTY to 80 by 24, and so does every later one. The first client
  counts with the 80 by 24 it is entered with.
\<close>

theorem undeclared_client_counterexample:
  "getLocalSize live_pty = (100, 40)
   \<and> relayRun upload0 one_undeclared (relay0 live_pty, []) =
       Inr (after_one_undeclared, [(0, None), (1, Some (120, 50))])
   \<and> ptySize (procs (r_pty after_one_undeclared) ! 0) = (80, 24)
   \<and> ptySize (procs (snd (applyMinSize (r_web after_one_undeclared) (r_pty after_one_undeclared))) ! 0)
       = (80, 24)"
  using run_one_undeclared
  by (simp add: after_one_undeclared_def ptySize_def run_defs)

text \<open>
  C4, amended. Take a live PTY, a positive local size and any run of connections,
  messages, errors and closes. The run does not fail, and the relay's table then holds
  exactly the connected clients, each with the size that counts for it: the size of its
  last accepted resize message that passed the rate check, 80 by 24 when there is none.
  Size re-arbitration then throws nothing and sets the PTY to the coordinate-wise
  minimum of the local size and the sizes that count for the connected clients; with no
  client connected it sets the local size. Local (100, 40) with clients that declared
  (80, 24) and (120, 50) gives (80, 24); once the first client has closed, (100, 40).
\<close>

theorem size_arbitration:
  assumes "ptyProcess p0 = Some h" and "h < length (procs p0)"
    and "0 < localCols p0" and "0 < localRows p0"
  shows "\<exists>s d. relayRun upload evs (relay0 p0, []) = Inr (s, d)
      \<and> map (\<lambda>(ws, ci). (ws, cols ci, rows ci)) (connectedClients (r_web s))
          = map (\<lambda>(ws, x). (ws, sizeOf x)) d
      \<and> getLocalSize (r_pty s) = getLocalSize p0
      \<and> fst (applyMinSize (r_web s) (r_pty s)) = None
      \<and> ptySize (procs (snd (applyMinSize (r_web s) (r_pty s))) ! h) =
          (Min (set (localCols p0 # map (\<lambda>(ws, x). fst (sizeOf x)) d)),
           Min (set (localRows p0 # map (\<lambda>(ws, x). snd (sizeOf x)) d)))
      \<and> (d = [] \<longrightarrow> ptySize (procs (snd (applyMinSize (r_web s) (r_pty s))) ! h) = getLocalSize p0)"
proof -
  have "0 < localCols (r_pty (relay0 p0))" and "0 < localRows (r_pty (relay0 p0))"
    using assms(3,4) by (simp_all add: relay0_def)
  from relayRun_inv [OF rel_inv_start this, of upload evs] obtain s d where
    run: "relayRun upload evs (relay0 p0, []) = Inr (s, d)" and inv: "rel_inv s d"
    and fr: "pty_frame p0 (r_pty s)" by (auto simp: relay0_def)
  let ?p = "r_pty s" and ?w = "r_web s"
  from fr assms have live: "ptyProcess ?p = Some h" "h < length (procs ?p)"
    and lc: "localCols ?p = localCols p0" and lr: "localRows ?p = localRows p0"
    by (simp_all add: pty_frame_def)
  have pos: "0 < localCols ?p" "0 < localRows ?p" using lc lr assms(3,4) by simp_all
  have ag: "agrees (connectedClients ?w) d" by (rule rel_inv_agrees [OF inv])
  have dp: "\<forall>(k, x) \<in> set d. 0 < fst (sizeOf x) \<and> 0 < snd (sizeOf x)"
    using rel_inv_pos [OF inv] by auto
  have c: "map cols (positiveSizes ?w) = map (\<lambda>(ws, x). fst (sizeOf x)) d"
    and r: "map rows (positiveSizes ?w) = map (\<lambda>(ws, x). snd (sizeOf x)) d"
    using agrees_sizes [OF ag dp] by (simp_all add: positiveSizes_def)
  from applyMinSize_size [OF live pos, of ?w]
  have ne: "fst (applyMinSize ?w ?p) = None"
    and sz: "ptySize (procs (snd (applyMinSize ?w ?p)) ! h) =
      (Min (set (localCols p0 # map (\<lambda>(ws, x). fst (sizeOf x)) d)),
       Min (set (localRows p0 # map (\<lambda>(ws, x). snd (sizeOf x)) d)))"
    by (simp_all only: c r lc lr)
  have loc: "getLocalSize ?p = getLocalSize p0" by (simp add: getLocalSize_def lc lr)
  have emp: "d = [] \<longrightarrow> ptySize (procs (snd (applyMinSize ?w ?p)) ! h) = getLocalSize p0"
    using sz by (simp add: getLocalSize_def)
  from run agrees_map [OF ag] loc ne sz emp show ?thesis by blast
qed

theorem size_arbitration_witness:
  "ptyProcess live_pty = Some 0 \<and> 0 < length (procs live_pty)
   \<and> 0 < localCols live_pty \<and> 0 < localRows live_pty \<and> getLocalSize live_pty = (100, 40)
   \<and> relayRun upload0 two_declare (relay0 live_pty, []) =
       Inr (after_two_declare, [(0, Some (80, 24)), (1, Some (120, 50))])
   \<and> ptySize (procs (snd (applyMinSize (r_web after_two_declare) (r_pty after_two_declare))) ! 0)
       = (80, 24)
   \<and> relayRun upload0 (two_declare @ [SockClose 0]) (relay0 live_pty, []) =
       Inr (after_close, [(1, Some (120, 50))])
   \<and> ptySize (procs (snd (applyMinSize (r_web after_close) (r_pty after_close))) ! 0) = (100, 40)
   \<and> relayRun upload0 [] (relay0 live_pty, []) = Inr (relay0 live_pty, [])
   \<and> ptySize (procs (snd (applyMinSize (r_web (relay0 live_pty)) (r_pty (relay0 live_pty)))) ! 0)
       = (100, 40)"
  using size_arbitration [of live_pty 0 upload0 two_declare]
    size_arbitration [of live_pty 0 upload0 "two_declare @ [SockClose 0]"]
    size_arbitration [of live_pty 0 upload0 "[]"]
    run_two_declare run_close
  by (auto simp: live_pty_eq sizeOf_def getLocalSize_def)

section \<open>Properties of the rate limit\<close>













section \<open>Properties of the tunnel supervisor\<close>

lemma tunnel_ok_start: "tunnel_ok (startTunnelProcess pid t0)"
  by (simp add: tunnel_ok_def startTunnelProcess_def)

lemma tunnel_ok_step: "tunnel_ok t \<Longrightarrow> tunnel_ok (tunnelStep e t)"
  by (cases e)
     (auto simp: tunnel_ok_def onOutput_def onError_def onTimeout_def stopTunnel_def
        onTunnelCrash_def settle_def Let_def split: option.splits if_splits)

lemma tunnel_ok_run: "tunnel_ok t \<Longrightarrow> tunnel_ok (tunnelRun evs t)"
  by (induction evs arbitrary: t) (auto simp: tunnel_ok_step)

lemma stop_step: "intentionalStop t \<Longrightarrow> intentionalStop (tunnelStep e t)"
  by (cases e)
     (auto simp: onOutput_def onError_def onTimeout_def stopTunnel_def
        onTunnelCrash_def settle_def Let_def split: option.splits if_splits)

lemma stop_run: "intentionalStop t \<Longrightarrow> intentionalStop (tunnelRun evs t)"
  by (induction evs arbitrary: t) (auto simp: stop_step)

lemma stop_sets: "tunnel_ok t \<Longrightarrow> intentionalStop (stopTunnel t)"
  by (auto simp: tunnel_ok_def stopTunnel_def Let_def split: option.splits)

lemma stop_in_run:
  "tunnel_ok t \<Longrightarrow> StopTunnelEv \<in> set evs \<Longrightarrow> intentionalStop (tunnelRun evs t)"
proof (induction evs arbitrary: t)
  case Nil then show ?case by simp
next
  case (Cons e evs)
  show ?case
  proof (cases "e = StopTunnelEv")
    case True
    then show ?thesis using stop_sets [OF Cons.prems(1)] stop_run by simp
  next
    case False
    with Cons.prems(2) have "StopTunnelEv \<in> set evs" by simp
    from Cons.IH [OF tunnel_ok_step [OF Cons.prems(1)] this] show ?thesis by simp
  qed
qed

lemma urlFound_step: "urlFound (tunnelStep e t) = (urlFound t \<or> isUrlOutput e)"
  by (cases e rule: isUrlOutput.cases)
     (auto simp: onOutput_def onError_def onTimeout_def stopTunnel_def
        onTunnelCrash_def settle_def Let_def split: option.splits if_splits)

lemma urlFound_run: "urlFound (tunnelRun evs t) = (urlFound t \<or> (\<exists>e \<in> set evs. isUrlOutput e))"
  by (induction evs arbitrary: t) (auto simp: urlFound_step)

lemma quiet_step:
  "quiet e \<Longrightarrow> intentionalStop (tunnelStep e t) = intentionalStop t
     \<and> crashCallbacks (tunnelStep e t) = crashCallbacks t @ registered [e]"
  by (cases e)
     (auto simp: onOutput_def onError_def onTunnelCrash_def settle_def split: option.splits)

lemma quiet_run:
  "list_all quiet evs \<Longrightarrow> intentionalStop (tunnelRun evs t) = intentionalStop t
     \<and> crashCallbacks (tunnelRun evs t) = crashCallbacks t @ registered evs"
proof (induction evs arbitrary: t)
  case Nil then show ?case by simp
next
  case (Cons e evs)
  then have q: "quiet e" and qs: "list_all quiet evs" by simp_all
  have "registered (e # evs) = registered [e] @ registered evs"
    by (cases e) simp_all
  with Cons.IH [OF qs, of "tunnelStep e t"] quiet_step [OF q, of t] show ?case by simp
qed

lemma close_not_found:
  assumes "tunnel_ok t" and "\<not> urlFound t"
  shows "fst (onClose code t) = [] \<and> (\<exists>r. startPromise (snd (onClose code t)) = Some (Rejected r))"
proof (cases "startPromise t")
  case None
  with assms show ?thesis by (simp add: onClose_def settle_def)
next
  case (Some o1)
  with assms obtain r where "o1 = Rejected r" by (cases o1) (auto simp: tunnel_ok_def)
  with Some assms show ?thesis by (simp add: onClose_def settle_def)
qed

text \<open>
  C7. When the tunnel subprocess exits, after any events since its start, the close
  handler calls the crash callbacks exactly when the URL had been found and the stop flag
  is not set, and then each registered callback once, with the exit code. The URL had
  been found exactly when some output matched. After \<open>stopTunnel\<close> no callback is called.
  An exit before the URL was found calls none and leaves the promise of \<open>startTunnel\<close>
  rejected. With a URL found and neither a stop nor a timeout, the callbacks called are
  those registered during the run.
\<close>

theorem tunnel_crash_callbacks:
  "fst (onClose code (atExit pid evs)) =
     (if urlFound (atExit pid evs) \<and> \<not> intentionalStop (atExit pid evs)
      then map (\<lambda>cb. (cb, code)) (crashCallbacks (atExit pid evs)) else [])
   \<and> (urlFound (atExit pid evs) \<longleftrightarrow> (\<exists>e \<in> set evs. isUrlOutput e))
   \<and> (StopTunnelEv \<in> set evs \<longrightarrow> fst (onClose code (atExit pid evs)) = [])
   \<and> (\<not> urlFound (atExit pid evs) \<longrightarrow>
        fst (onClose code (atExit pid evs)) = []
        \<and> (\<exists>r. startPromise (snd (onClose code (atExit pid evs))) = Some (Rejected r)))
   \<and> (list_all quiet evs \<and> (\<exists>e \<in> set evs. isUrlOutput e) \<longrightarrow>
        fst (onClose code (atExit pid evs)) = map (\<lambda>cb. (cb, code)) (registered evs))"
proof -
  let ?t = "atExit pid evs"
  have ok: "tunnel_ok ?t"
    unfolding atExit_def by (rule tunnel_ok_run [OF tunnel_ok_start])
  have 1: "fst (onClose code ?t) =
     (if urlFound ?t \<and> \<not> intentionalStop ?t
      then map (\<lambda>cb. (cb, code)) (crashCallbacks ?t) else [])"
    by (simp add: onClose_def)
  have 2: "urlFound ?t \<longleftrightarrow> (\<exists>e \<in> set evs. isUrlOutput e)"
    by (simp add: atExit_def urlFound_run startTunnelProcess_def)
  have 3: "StopTunnelEv \<in> set evs \<longrightarrow> fst (onClose code ?t) = []"
  proof
    assume "StopTunnelEv \<in> set evs"
    then have "intentionalStop ?t"
      unfolding atExit_def by (rule stop_in_run [OF tunnel_ok_start])
    then show "fst (onClose code ?t) = []" by (simp add: onClose_def)
  qed
  have 4: "\<not> urlFound ?t \<longrightarrow> fst (onClose code ?t) = []
        \<and> (\<exists>r. startPromise (snd (onClose code ?t)) = Some (Rejected r))"
    using close_not_found [OF ok] by blast
  have 5: "list_all quiet evs \<and> (\<exists>e \<in> set evs. isUrlOutput e) \<longrightarrow>
        fst (onClose code ?t) = map (\<lambda>cb. (cb, code)) (registered evs)"
  proof
    assume a: "list_all quiet evs \<and> (\<exists>e \<in> set evs. isUrlOutput e)"
    then have "intentionalStop ?t = False" and "crashCallbacks ?t = registered evs"
      using quiet_run [of evs "startTunnelProcess pid tunnel_init"]
      by (simp_all add: atExit_def startTunnelProcess_def tunnel_init_def)
    with a 2 1 show "fst (onClose code ?t) = map (\<lambda>cb. (cb, code)) (registered evs)" by simp
  qed
  from 1 2 3 4 5 show ?thesis by blast
qed

theorem tunnel_crash_callbacks_witness:
  "fst (onClose (Some 1) (atExit 7 [OutputEv None, OutputEv (Some url0), OnTunnelCrashEv SessionCrash]))
     = [(SessionCrash, Some 1)]
   \<and> StopTunnelEv \<in> set [OutputEv (Some url0), OnTunnelCrashEv SessionCrash, StopTunnelEv]
   \<and> fst (onClose None (atExit 7 [OutputEv (Some url0), OnTunnelCrashEv SessionCrash, StopTunnelEv])) = []
   \<and> \<not> urlFound (atExit 7 [OnTunnelCrashEv SessionCrash, OutputEv None])
   \<and> fst (onClose (Some 1) (atExit 7 [OnTunnelCrashEv SessionCrash, OutputEv None])) = []
   \<and> startPromise (snd (onClose (Some 1) (atExit 7 [OnTunnelCrashEv SessionCrash, OutputEv None])))
       = Some (Rejected (ExitedWithCode (Some 1)))"
  using tunnel_crash_callbacks [of "Some 1" 7 "[OutputEv None, OutputEv (Some url0), OnTunnelCrashEv SessionCrash]"]
    tunnel_crash_callbacks [of None 7 "[OutputEv (Some url0), OnTunnelCrashEv SessionCrash, StopTunnelEv]"]
    tunnel_crash_callbacks [of "Some 1" 7 "[OnTunnelCrashEv SessionCrash, OutputEv None]"]
  by (simp add: atExit_def startTunnelProcess_def tunnel_init_def onOutput_def onTunnelCrash_def
      stopTunnel_def settle_def onClose_def Let_def)

section \<open>Properties of shutdown\<close>

lemma cleanup_inv: "guard_inv s \<Longrightarrow> guard_inv (cleanup env s)"
  by (auto simp: guard_inv_def cleanup_def Let_def split: prod.splits if_splits)

lemma cleanup_sets: "cleaningUp (cleanup env s)"
  by (auto simp: cleanup_def Let_def split: prod.splits)

lemma callExit_inv: "guard_inv s \<Longrightarrow> guard_inv (callExit env cbs s)"
  by (induction cbs arbitrary: s) (auto simp: cleanup_inv)

lemma callExit_keeps: "cleaningUp s \<Longrightarrow> cleaningUp (callExit env cbs s)"
  by (induction cbs arbitrary: s) (auto simp: cleanup_sets)

lemma callExit_session: "SessionExit \<in> set cbs \<Longrightarrow> cleaningUp (callExit env cbs s)"
  by (induction cbs arbitrary: s) (auto simp: cleanup_sets callExit_keeps)

lemma fire_inv: "guard_inv s \<Longrightarrow> guard_inv (fire env t s)"
proof (cases t)
  case (PTYExited code)
  assume "guard_inv s"
  from callExit_inv [OF this, of env "exitCallbacks (s_pty s)"] PTYExited
  show ?thesis by (simp add: guard_inv_def Let_def)
qed (simp_all add: cleanup_inv)

lemma fire_keeps: "cleaningUp s \<Longrightarrow> cleaningUp (fire env t s)"
  by (cases t) (simp_all add: cleanup_sets callExit_keeps Let_def)

lemma fireAll_inv: "guard_inv s \<Longrightarrow> guard_inv (fireAll env ts s)"
  by (induction ts arbitrary: s) (auto simp: fire_inv)

lemma fireAll_keeps: "cleaningUp s \<Longrightarrow> cleaningUp (fireAll env ts s)"
  by (induction ts arbitrary: s) (auto simp: fire_keeps)

lemma fireAll_signal: "\<exists>t \<in> set ts. isSignal t \<Longrightarrow> cleaningUp (fireAll env ts s)"
proof (induction ts arbitrary: s)
  case Nil then show ?case by simp
next
  case (Cons t ts)
  show ?case
  proof (cases "isSignal t")
    case True
    then have "cleaningUp (fire env t s)" by (cases t) (simp_all add: cleanup_sets)
    then show ?thesis by (simp add: fireAll_keeps)
  next
    case False
    with Cons.prems have "\<exists>t \<in> set ts. isSignal t" by simp
    from Cons.IH [OF this] show ?thesis by simp
  qed
qed

lemma fireAll_pty_exit:
  assumes "SessionExit \<in> set (exitCallbacks (s_pty s))"
  shows "cleaningUp (fireAll env (PTYExited code # ts) s)"
proof -
  have "cleaningUp (fire env (PTYExited code) s)"
    using callExit_session [OF assms, of env s] by (simp add: Let_def)
  then show ?thesis by (simp add: fireAll_keeps)
qed

text \<open>
  C8. From a session that has not begun to clean up, after any signals and PTY exits in
  any order and number, the teardown body (kill the PTY, stop the relay, stop the
  tunnel, exit with 0) has run at most once: its log is empty or holds the four steps
  once. It has run exactly once as soon as one trigger was a signal, or the first was a
  PTY exit with the session's exit callback registered.
\<close>

theorem cleanup_at_most_once:
  "(teardown (fireAll env ts (s\<lparr>cleaningUp := False, teardown := []\<rparr>)) = []
     \<or> teardown (fireAll env ts (s\<lparr>cleaningUp := False, teardown := []\<rparr>)) = teardownBody)
   \<and> ((\<exists>t \<in> set ts. isSignal t) \<longrightarrow>
        teardown (fireAll env ts (s\<lparr>cleaningUp := False, teardown := []\<rparr>)) = teardownBody)
   \<and> (SessionExit \<in> set (exitCallbacks (s_pty s)) \<longrightarrow>
        teardown (fireAll env (PTYExited code # ts) (s\<lparr>cleaningUp := False, teardown := []\<rparr>)) = teardownBody)"
proof -
  let ?s = "s\<lparr>cleaningUp := False, teardown := []\<rparr>"
  have g: "guard_inv ?s" by (simp add: guard_inv_def)
  have i: "guard_inv (fireAll env us ?s)" for us by (rule fireAll_inv [OF g])
  have 1: "teardown (fireAll env ts ?s) = [] \<or> teardown (fireAll env ts ?s) = teardownBody"
    using i [of ts] by (auto simp: guard_inv_def split: if_splits)
  have 2: "(\<exists>t \<in> set ts. isSignal t) \<longrightarrow> teardown (fireAll env ts ?s) = teardownBody"
    using i [of ts] fireAll_signal [of ts env ?s] by (auto simp: guard_inv_def split: if_splits)
  have 3: "SessionExit \<in> set (exitCallbacks (s_pty s)) \<longrightarrow>
        teardown (fireAll env (PTYExited code # ts) ?s) = teardownBody"
    using i [of "PTYExited code # ts"] fireAll_pty_exit [of ?s env code ts]
    by (auto simp: guard_inv_def split: if_splits)
  from 1 2 3 show ?thesis by blast
qed

theorem cleanup_at_most_once_witness:
  "(\<exists>t \<in> set [SIGINT, PTYExited 0, SIGTERM, SIGINT]. isSignal t)
   \<and> teardown (fireAll env0 [SIGINT, PTYExited 0, SIGTERM, SIGINT]
        (session0\<lparr>cleaningUp := False, teardown := []\<rparr>)) = teardownBody
   \<and> SessionExit \<in> set (exitCallbacks (s_pty session0))
   \<and> teardown (fireAll env0 [PTYExited 0, PTYExited 0, SIGINT]
        (session0\<lparr>cleaningUp := False, teardown := []\<rparr>)) = teardownBody
   \<and> teardown (fireAll env0 [] (session0\<lparr>cleaningUp := False, teardown := []\<rparr>)) = []"
  using cleanup_at_most_once [of env0 "[SIGINT, PTYExited 0, SIGTERM, SIGINT]" session0 0]
    cleanup_at_most_once [of env0 "[PTYExited 0, SIGINT]" session0 0]
    cleanup_at_most_once [of env0 "[]" session0 0]
  by (simp add: session0_def onPTYExit_def)

end
